theory Spec2Isabelle
  imports Main "HOL-Library.Sublist"
begin

section \<open>Python values and string formatting\<close>

text \<open>
  The script \<^verbatim>\<open>__main__.py\<close> declares a K3s cluster: a network, a security group,
  one master instance and \<^verbatim>\<open>num_workers\<close> worker instances, and registers a callback
  that writes an SSH configuration file once every public address is known.
  Strings are \<^typ>\<open>string\<close>; the characters that cannot be written inside a literal
  are named here.
\<close>

definition NL :: string where
  "NL = [CHR 0x0A]"

definition DQ :: string where
  "DQ = [CHR 0x22]"

definition BS :: string where
  "BS = [CHR 0x5C]"

definition digit_char :: "nat \<Rightarrow> char" where
  "digit_char d = ''0123456789'' ! d"

text \<open>\<^verbatim>\<open>str(n)\<close> of a non-negative Python integer, as the f-strings render it.\<close>

fun str_nat :: "nat \<Rightarrow> string" where
  "str_nat n = (if n < 10 then [digit_char n]
                else str_nat (n div 10) @ [digit_char (n mod 10)])"

declare str_nat.simps [simp del]

text \<open>\<^verbatim>\<open>sep.join(xs)\<close>.\<close>

fun join :: "string \<Rightarrow> string list \<Rightarrow> string" where
  "join sep [] = []"
| "join sep [x] = x"
| "join sep (x # y # ys) = x @ sep @ join sep (y # ys)"

section \<open>Configuration (lines 6-12)\<close>

text \<open>
  \<^verbatim>\<open>config.get(key)\<close> is a lookup in the stack configuration; \<^verbatim>\<open>v or d\<close> takes the
  default when the value is missing or the empty string.
\<close>

type_synonym config = "string \<rightharpoonup> string"

definition py_or :: "string option \<Rightarrow> string \<Rightarrow> string" where
  "py_or v d = (case v of None \<Rightarrow> d | Some s \<Rightarrow> if s = [] then d else s)"

definition vpc_cidr :: "config \<Rightarrow> string" where
  "vpc_cidr cfg = py_or (cfg ''vpc_cidr'') ''10.0.0.0/16''"

definition public_subnet_cidr :: "config \<Rightarrow> string" where
  "public_subnet_cidr cfg = py_or (cfg ''public_subnet_cidr'') ''10.0.1.0/24''"

definition availability_zone :: "config \<Rightarrow> string" where
  "availability_zone cfg = py_or (cfg ''availability_zone'') ''ap-southeast-1a''"

definition ubuntu_ami_id :: "config \<Rightarrow> string" where
  "ubuntu_ami_id cfg = py_or (cfg ''ami_id'') ''ami-060e277c0d4cce553''"

definition k3s_token :: "config \<Rightarrow> string" where
  "k3s_token cfg = py_or (cfg ''k3s_token'') ''super-secret-token''"

definition access_key :: "config \<Rightarrow> string" where
  "access_key cfg = py_or (cfg ''k3sCluster'') ''k3s-cluster''"

section \<open>Resource declarations\<close>

text \<open>
  An argument of a resource is either a plain string or an attribute of another declared
  resource, known only once the provider has created it. A resource is referred to by
  its logical name.
\<close>

datatype attr = Id | CidrBlock | PrivateIp | PublicIp

datatype input =
    Plain string
  | Attr string attr

type_synonym outputs = "string \<times> attr \<rightharpoonup> string"

fun resolve_input :: "outputs \<Rightarrow> input \<Rightarrow> string option" where
  "resolve_input env (Plain s) = Some s"
| "resolve_input env (Attr r a) = env (r, a)"

text \<open>
  The \<^verbatim>\<open>user_data\<close> of an instance is a script, or a function applied to an attribute
  of another resource (\<^verbatim>\<open>output.apply(f)\<close>): the script is \<open>f\<close> of the attribute's
  value, once that is known.
\<close>

datatype script_input =
    Script string
  | Applied string attr "string \<Rightarrow> string"


record traffic_rule =
  protocol :: string
  from_port :: int
  to_port :: int
  cidr_blocks :: "input list"

record security_group =
  sg_vpc_id :: input
  sg_description :: string
  ingress :: "traffic_rule list"
  egress :: "traffic_rule list"
  sg_tags :: "(string \<times> string) list"

record ec2_instance =
  instance_type :: string
  vpc_security_group_ids :: "input list"
  ami :: string
  subnet_id :: input
  key_name :: string
  associate_public_ip_address :: bool
  user_data :: script_input
  tags :: "(string \<times> string) list"
  depends_on :: "string list"

datatype resource =
    Vpc string string "(string \<times> string) list"
  | Subnet string input string string bool "(string \<times> string) list"
  | InternetGateway string input "(string \<times> string) list"
  | RouteTable string input "(string \<times> string) list"
  | Route string input string input
  | RouteTableAssociation string input input
  | SecurityGroup string security_group
  | Instance string ec2_instance

fun resource_name :: "resource \<Rightarrow> string" where
  "resource_name (Vpc n _ _) = n"
| "resource_name (Subnet n _ _ _ _ _) = n"
| "resource_name (InternetGateway n _ _) = n"
| "resource_name (RouteTable n _ _) = n"
| "resource_name (Route n _ _ _) = n"
| "resource_name (RouteTableAssociation n _ _) = n"
| "resource_name (SecurityGroup n _) = n"
| "resource_name (Instance n _) = n"

text \<open>The explicit ordering constraints (\<^verbatim>\<open>opts=ResourceOptions(depends_on=[...])\<close>).\<close>

fun resource_depends_on :: "resource \<Rightarrow> string list" where
  "resource_depends_on (Instance _ i) = depends_on i"
| "resource_depends_on _ = []"

subsection \<open>Network (lines 15-60)\<close>

definition vpc :: "config \<Rightarrow> resource" where
  "vpc cfg = Vpc ''my-vpc'' (vpc_cidr cfg) [(''Name'', ''my-vpc'')]"

definition public_subnet :: "config \<Rightarrow> resource" where
  "public_subnet cfg =
     Subnet ''public-subnet'' (Attr ''my-vpc'' Id) (public_subnet_cidr cfg)
       (availability_zone cfg) True [(''Name'', ''public-subnet'')]"

definition igw :: resource where
  "igw = InternetGateway ''internet-gateway'' (Attr ''my-vpc'' Id) [(''Name'', ''igw'')]"

definition public_route_table :: resource where
  "public_route_table =
     RouteTable ''public-route-table'' (Attr ''my-vpc'' Id) [(''Name'', ''rt-public'')]"

definition route :: resource where
  "route = Route ''igw-route'' (Attr ''public-route-table'' Id) ''0.0.0.0/0''
             (Attr ''internet-gateway'' Id)"

definition route_table_association :: resource where
  "route_table_association =
     RouteTableAssociation ''public-route-table-association''
       (Attr ''public-subnet'' Id) (Attr ''public-route-table'' Id)"

subsection \<open>Security group (lines 63-121)\<close>

text \<open>\<^verbatim>\<open>public_subnet.cidr_block\<close>, an attribute of the subnet resource.\<close>

definition subnet_range :: input where
  "subnet_range = Attr ''public-subnet'' CidrBlock"

definition open_internet :: input where
  "open_internet = Plain ''0.0.0.0/0''"

definition k3s_ingress :: "traffic_rule list" where
  "k3s_ingress =
    [\<lparr>protocol = ''tcp'', from_port = 6443, to_port = 6443, cidr_blocks = [subnet_range]\<rparr>,
     \<lparr>protocol = ''udp'', from_port = 8472, to_port = 8472, cidr_blocks = [subnet_range]\<rparr>,
     \<lparr>protocol = ''tcp'', from_port = 22, to_port = 22, cidr_blocks = [open_internet]\<rparr>,
     \<lparr>protocol = ''tcp'', from_port = 80, to_port = 80, cidr_blocks = [open_internet]\<rparr>,
     \<lparr>protocol = ''tcp'', from_port = 443, to_port = 443, cidr_blocks = [subnet_range]\<rparr>,
     \<lparr>protocol = ''-1'', from_port = 0, to_port = 0, cidr_blocks = [subnet_range]\<rparr>]"

definition k3s_egress :: "traffic_rule list" where
  "k3s_egress =
    [\<lparr>protocol = ''-1'', from_port = 0, to_port = 0, cidr_blocks = [open_internet]\<rparr>]"

definition k3s_security_group :: security_group where
  "k3s_security_group =
    \<lparr>sg_vpc_id = Attr ''my-vpc'' Id,
     sg_description = ''Security group for K3s cluster nodes'',
     ingress = k3s_ingress,
     egress = k3s_egress,
     sg_tags = [(''Name'', ''k3s-cluster-sg'')]\<rparr>"

subsection \<open>Instances (lines 124-188)\<close>

definition master_userdata :: "string \<Rightarrow> string" where
  "master_userdata token =
     ''#!/bin/bash'' @ NL @
     ''    sudo apt update'' @ NL @
     ''    sudo hostnamectl set-hostname k3s-master'' @ NL @
     ''    # Install K3s server'' @ NL @
     ''    curl -sfL https://get.k3s.io | K3S_TOKEN='' @ DQ @ token @ DQ @
        '' sh -s - server '' @ BS @ NL @
     ''    --cluster-init'' @ NL @
     NL @
     ''    # Wait for K3s to be ready'' @ NL @
     ''    export KUBECONFIG=/etc/rancher/k3s/k3s.yaml'' @ NL @
     ''    until /usr/local/bin/kubectl get nodes 2>/dev/null; do'' @ NL @
     ''        echo '' @ DQ @ ''Waiting for K3s to start...'' @ DQ @ NL @
     ''        sleep 5'' @ NL @
     ''    done'' @ NL @
     NL @
     ''    chown ubuntu:ubuntu /etc/rancher/k3s/k3s.yaml'' @ NL @
     ''    chmod 600 /etc/rancher/k3s/k3s.yaml'' @ NL @
     ''    ''"

definition master_instance :: "config \<Rightarrow> resource" where
  "master_instance cfg = Instance ''master-instance''
    \<lparr>instance_type = ''t3.small'',
     vpc_security_group_ids = [Attr ''k3s-secgrp'' Id],
     ami = ubuntu_ami_id cfg,
     subnet_id = Attr ''public-subnet'' Id,
     key_name = access_key cfg,
     associate_public_ip_address = True,
     user_data = Script (master_userdata (k3s_token cfg)),
     tags = [(''Name'', ''k3s-master'')],
     depends_on = []\<rparr>"

definition num_workers :: nat where
  "num_workers = 2"

text \<open>
  \<^verbatim>\<open>make_worker_userdata(ip, index)\<close>; the module-level \<^verbatim>\<open>k3s_token\<close> it reads is the
  first argument.
\<close>

definition make_worker_userdata :: "string \<Rightarrow> string \<Rightarrow> nat \<Rightarrow> string" where
  "make_worker_userdata token ip index =
     ''#!/bin/bash'' @ NL @
     ''    sudo apt update'' @ NL @
     ''    sudo hostnamectl set-hostname k3s-worker'' @ str_nat index @ NL @
     ''    # Install K3s agent'' @ NL @
     ''    curl -sfL https://get.k3s.io | K3S_TOKEN='' @ DQ @ token @ DQ @
        '' K3S_URL=https://'' @ ip @ '':6443 sh -s -'' @ NL @
     ''    ''"

text \<open>The body of the loop \<^verbatim>\<open>for i in range(1, num_workers + 1)\<close>.\<close>

definition worker_instance :: "config \<Rightarrow> nat \<Rightarrow> resource" where
  "worker_instance cfg i = Instance (''worker'' @ str_nat i @ ''-instance'')
    \<lparr>instance_type = ''t3.small'',
     vpc_security_group_ids = [Attr ''k3s-secgrp'' Id],
     ami = ubuntu_ami_id cfg,
     subnet_id = Attr ''public-subnet'' Id,
     key_name = access_key cfg,
     associate_public_ip_address = True,
     user_data = Applied ''master-instance'' PrivateIp
                   (\<lambda>ip. make_worker_userdata (k3s_token cfg) ip i),
     tags = [(''Name'', ''k3s-worker'' @ str_nat i)],
     depends_on = [''master-instance'']\<rparr>"

definition workers :: "config \<Rightarrow> nat \<Rightarrow> resource list" where
  "workers cfg n = map (worker_instance cfg) [1..<Suc n]"

text \<open>
  The resources in the order the script declares them, for a worker count \<open>n\<close>;
  the script itself runs with \<^const>\<open>num_workers\<close>.
\<close>

definition declarations :: "config \<Rightarrow> nat \<Rightarrow> resource list" where
  "declarations cfg n =
     [vpc cfg, public_subnet cfg, igw, public_route_table, route, route_table_association,
      SecurityGroup ''k3s-secgrp'' k3s_security_group, master_instance cfg] @ workers cfg n"

definition program :: "config \<Rightarrow> resource list" where
  "program cfg = declarations cfg num_workers"



section \<open>Reading the security group\<close>

text \<open>The ingress rules that name a protocol and a port.\<close>

definition port_rules :: "string \<Rightarrow> int \<Rightarrow> traffic_rule list \<Rightarrow> traffic_rule list" where
  "port_rules proto port rs =
     filter (\<lambda>r. protocol r = proto \<and> from_port r \<le> port \<and> port \<le> to_port r) rs"

text \<open>
  Modelled from the spec: the provider's reading of a rule is not part of the script.
  A rule admits traffic of a protocol to a port from a source range when it names that
  source range and either names the protocol with a port range holding the port, or has
  the protocol \<^verbatim>\<open>-1\<close>, which stands for all protocols and all ports.
\<close>

definition rule_admits :: "traffic_rule \<Rightarrow> string \<Rightarrow> int \<Rightarrow> input \<Rightarrow> bool" where
  "rule_admits r proto port src =
     ((protocol r = ''-1'' \<or> (protocol r = proto \<and> from_port r \<le> port \<and> port \<le> to_port r))
      \<and> src \<in> set (cidr_blocks r))"

definition policy_admits :: "traffic_rule list \<Rightarrow> string \<Rightarrow> int \<Rightarrow> input \<Rightarrow> bool" where
  "policy_admits rs proto port src = list_ex (\<lambda>r. rule_admits r proto port src) rs"

section \<open>Creation order\<close>

text \<open>
  Modelled from the spec: the provisioning engine is not part of the script. A run issues
  creation requests one at a time, each for a declared resource, and issues the request
  for a resource only when every resource it explicitly depends on has been requested.
  The second argument holds the requests issued so far.
\<close>

fun admissible :: "resource list \<Rightarrow> string list \<Rightarrow> string list \<Rightarrow> bool" where
  "admissible rs issued [] = True"
| "admissible rs issued (x # xs) =
     (list_ex (\<lambda>r. resource_name r = x \<and> set (resource_depends_on r) \<subseteq> set issued) rs
      \<and> admissible rs (issued @ [x]) xs)"

text \<open>\<open>a\<close> occurs in the sequence before the first occurrence of \<open>b\<close>.\<close>

definition issued_before :: "string \<Rightarrow> string \<Rightarrow> string list \<Rightarrow> bool" where
  "issued_before a b order = (a \<in> set (takeWhile (\<lambda>x. x \<noteq> b) order))"

section \<open>The SSH configuration file (lines 208-229)\<close>

datatype py_error = IndexError | OSError

text \<open>
  The file system as far as the script touches it: the contents of the files, and the
  paths that \<^verbatim>\<open>open(path, "w")\<close> can open.
\<close>

record file_system =
  files :: "string \<rightharpoonup> string"
  openable :: "string \<Rightarrow> bool"

text \<open>
  \<^verbatim>\<open>hosts\<close>; \<open>nw\<close> is \<^verbatim>\<open>len(workers)\<close>, the length of the module-level list of
  worker instances.
\<close>

definition hosts :: "nat \<Rightarrow> string list" where
  "hosts nw = ''master'' # map (\<lambda>i. ''worker-'' @ str_nat (i + 1)) [0..<nw]"

text \<open>The five lines appended for one host.\<close>

definition host_lines :: "string \<Rightarrow> string \<Rightarrow> string list" where
  "host_lines host ip =
     [''Host '' @ host,
      ''  HostName '' @ ip,
      ''  User ubuntu'',
      ''  IdentityFile ~/.ssh/k3s-cluster.id_rsa'' @ NL,
      '''']"

text \<open>
  The loop \<^verbatim>\<open>for idx, host in enumerate(hosts)\<close>; \<^verbatim>\<open>all_ips[idx]\<close> raises
  \<^verbatim>\<open>IndexError\<close> beyond the end of the list.
\<close>

fun config_lines :: "string list \<Rightarrow> nat \<Rightarrow> string list \<Rightarrow> string list \<Rightarrow> py_error + string list" where
  "config_lines all_ips idx [] acc = Inr acc"
| "config_lines all_ips idx (host # rest) acc =
     (if idx < length all_ips
      then config_lines all_ips (Suc idx) rest (acc @ host_lines host (all_ips ! idx))
      else Inl IndexError)"

definition config_content :: "nat \<Rightarrow> string list \<Rightarrow> py_error + string" where
  "config_content nw all_ips =
     (case config_lines all_ips 0 (hosts nw) [] of
        Inl e \<Rightarrow> Inl e
      | Inr ls \<Rightarrow> Inr (join NL ls))"

text \<open>
  \<^verbatim>\<open>create_config_file(all_ips)\<close>. \<^verbatim>\<open>os.path.expanduser\<close> is a parameter; opening
  with mode \<^verbatim>\<open>"w"\<close> truncates the file, so the write replaces its content.
\<close>

definition create_config_file ::
  "(string \<Rightarrow> string) \<Rightarrow> nat \<Rightarrow> string list \<Rightarrow> file_system \<Rightarrow> py_error + file_system" where
  "create_config_file expanduser nw all_ips fs =
     (case config_content nw all_ips of
        Inl e \<Rightarrow> Inl e
      | Inr config_content' \<Rightarrow>
          (let config_path = expanduser ''~/.ssh/config'' in
           if openable fs config_path
           then Inr (fs\<lparr>files := (files fs)(config_path \<mapsto> config_content')\<rparr>)
           else Inl OSError))"

text \<open>Reading a configuration file back: its lines, and the hosts and addresses it lists.\<close>

fun split_lines :: "string \<Rightarrow> string list" where
  "split_lines [] = [[]]"
| "split_lines (c # cs) =
     (if c = CHR 0x0A then [] # split_lines cs
      else (case split_lines cs of [] \<Rightarrow> [[c]] | l # ls \<Rightarrow> (c # l) # ls))"

definition host_aliases :: "string \<Rightarrow> string list" where
  "host_aliases content = map (drop 5) (filter (prefix ''Host '') (split_lines content))"

definition host_addresses :: "string \<Rightarrow> string list" where
  "host_addresses content =
     map (drop 11) (filter (prefix ''  HostName '') (split_lines content))"

section \<open>Deferred values\<close>

text \<open>
  Modelled from the spec: the deferred-value mechanism behind \<^verbatim>\<open>Output.apply\<close> and
  \<^verbatim>\<open>Output.all\<close> belongs to the provisioning library and is not part of the script.
  Following sections 3, 4.3 and 9 of the specification, a deferred value is a
  single-assignment placeholder backed by a list of observers. A store holds the
  placeholders, addressed by their position, and a log of the placeholders that have
  fired, in the order they did. A value is a string or an ordered collection of values.
\<close>

datatype val = Text string | Collection "val list"

text \<open>
  Modelled from the spec: a pending transformation "runs \<open>f\<close> and resolves the new
  deferred value with the result"; the observer of a fan-in names the result and the
  ordered members.
\<close>

datatype observer =
    Transform "val \<Rightarrow> val" nat
  | Gather nat "nat list"

text \<open>Modelled from the spec: the states \<open>unresolved\<close> (with the pending list) and \<open>resolved(value)\<close>.\<close>

datatype cell = Unresolved "observer list" | Resolved val

record store =
  cells :: "cell list"
  fired :: "nat list"

datatype dv_error = AlreadyResolved nat | NoSuchValue nat

definition empty_store :: store where
  "empty_store = \<lparr>cells = [], fired = []\<rparr>"

text \<open>Modelled from the spec: the value a deferred value holds, if it has resolved.\<close>

definition cell_value :: "cell \<Rightarrow> val option" where
  "cell_value c = (case c of Resolved v \<Rightarrow> Some v | Unresolved _ \<Rightarrow> None)"

definition value_of :: "store \<Rightarrow> nat \<Rightarrow> val option" where
  "value_of s d = (if d < length (cells s) then cell_value (cells s ! d) else None)"

text \<open>Modelled from the spec: a new unresolved deferred value without observers.\<close>

definition new_deferred :: "store \<Rightarrow> nat \<times> store" where
  "new_deferred s = (length (cells s), s\<lparr>cells := cells s @ [Unresolved []]\<rparr>)"

text \<open>
  Modelled from the spec: what an observer asks for when the value it observes resolves
  to \<open>v\<close>: a transformation resolves its result with \<open>f v\<close>; a fan-in resolves its result
  with the ordered collection of the members' values once every member has resolved.
\<close>

fun notify :: "store \<Rightarrow> val \<Rightarrow> observer \<Rightarrow> (nat \<times> val) list" where
  "notify s v (Transform f t) = [(t, f v)]"
| "notify s v (Gather g ms) =
     (case those (map (value_of s) ms) of
        Some vs \<Rightarrow> [(g, Collection vs)]
      | None \<Rightarrow> [])"

text \<open>
  Modelled from the spec: one placeholder moves from unresolved to resolved and triggers
  each of its pending observers once, in registration order. Doing so to a resolved
  placeholder is an error.
\<close>

definition settle :: "nat \<Rightarrow> val \<Rightarrow> store \<Rightarrow> dv_error + ((nat \<times> val) list \<times> store)" where
  "settle d v s =
     (if length (cells s) \<le> d then Inl (NoSuchValue d)
      else (case cells s ! d of
              Resolved _ \<Rightarrow> Inl (AlreadyResolved d)
            | Unresolved obs \<Rightarrow>
                (let s' = s\<lparr>cells := (cells s)[d := Resolved v], fired := fired s @ [d]\<rparr>
                 in Inr (concat (map (notify s' v) obs), s'))))"

definition unresolved_count :: "store \<Rightarrow> nat" where
  "unresolved_count s = length (filter (\<lambda>c. case c of Unresolved _ \<Rightarrow> True | Resolved _ \<Rightarrow> False) (cells s))"


lemma settle_unresolved_count:
  assumes "settle d v s = Inr (new, s')"
  shows "unresolved_count s' < unresolved_count s"
proof -
  let ?P = "\<lambda>c. case c of Unresolved _ \<Rightarrow> True | Resolved _ \<Rightarrow> False"
  from assms obtain obs where d: "d < length (cells s)" and c: "cells s ! d = Unresolved obs"
    and s': "cells s' = (cells s)[d := Resolved v]"
    by (auto simp: settle_def Let_def split: if_splits cell.splits)
  have sub: "{i. i < length (cells s') \<and> ?P (cells s' ! i)} \<subseteq> {i. i < length (cells s) \<and> ?P (cells s ! i)}"
  proof (rule subsetI)
    fix x assume "x \<in> {i. i < length (cells s') \<and> ?P (cells s' ! i)}"
    then have x: "x < length (cells s)" "?P ((cells s)[d := Resolved v] ! x)"
      unfolding s' by simp_all
    then have "x \<noteq> d" by (cases "x = d") simp_all
    with x show "x \<in> {i. i < length (cells s) \<and> ?P (cells s ! i)}" by simp
  qed
  have "d \<in> {i. i < length (cells s) \<and> ?P (cells s ! i)}" using d c by simp
  moreover have "d \<notin> {i. i < length (cells s') \<and> ?P (cells s' ! i)}"
    unfolding s' using d by simp
  ultimately have "{i. i < length (cells s') \<and> ?P (cells s' ! i)} \<subset> {i. i < length (cells s) \<and> ?P (cells s ! i)}"
    using sub by blast
  then have "card {i. i < length (cells s') \<and> ?P (cells s' ! i)}
           < card {i. i < length (cells s) \<and> ?P (cells s ! i)}"
    by (intro psubset_card_mono) simp_all
  then show ?thesis
    unfolding unresolved_count_def length_filter_conv_card .
qed

text \<open>
  Modelled from the spec: the resolutions asked for are carried out one after the other,
  those triggered by an observer before the ones that were waiting; the first error
  ends the run. Each step resolves one more placeholder, so a run ends.
\<close>

function deliver :: "(nat \<times> val) list \<Rightarrow> store \<Rightarrow> dv_error + store" where
  "deliver [] s = Inr s"
| "deliver ((d, v) # wl) s =
     (case settle d v s of
        Inl e \<Rightarrow> Inl e
      | Inr (new, s') \<Rightarrow> deliver (new @ wl) s')"
  by pat_completeness auto
termination
proof (relation "measure (\<lambda>(wl, s). unresolved_count s)")
  show "wf (measure (\<lambda>(wl, s). unresolved_count s))" by simp
next
  fix d v wl s x new s'
  assume "settle d v s = Inr x" "(new, s') = x"
  then have "settle d v s = Inr (new, s')" by simp
  then have "unresolved_count s' < unresolved_count s" by (rule settle_unresolved_count)
  then show "((new @ wl, s'), (d, v) # wl, s) \<in> measure (\<lambda>(wl, s). unresolved_count s)"
    by simp
qed


text \<open>Modelled from the spec: \<open>resolve(value)\<close>.\<close>

definition resolve :: "nat \<Rightarrow> val \<Rightarrow> store \<Rightarrow> dv_error + store" where
  "resolve d v s = deliver [(d, v)] s"

text \<open>
  Modelled from the spec: \<open>transform(f)\<close> returns a new deferred value; on a resolved
  value \<open>f\<close> runs at once, on an unresolved one it joins the pending list.
\<close>

definition transform :: "(val \<Rightarrow> val) \<Rightarrow> nat \<Rightarrow> store \<Rightarrow> dv_error + (nat \<times> store)" where
  "transform f d s =
     (let t = length (cells s) in
      if length (cells s) \<le> d then Inl (NoSuchValue d)
      else (case cells s ! d of
              Resolved v \<Rightarrow>
                Inr (t, s\<lparr>cells := cells s @ [Resolved (f v)], fired := fired s @ [t]\<rparr>)
            | Unresolved obs \<Rightarrow>
                Inr (t, s\<lparr>cells := (cells s)[d := Unresolved (obs @ [Transform f t])]
                                     @ [Unresolved []]\<rparr>)))"

text \<open>Modelled from the spec: an observer is added to a placeholder that is still unresolved.\<close>

definition subscribe :: "observer \<Rightarrow> nat \<Rightarrow> cell list \<Rightarrow> cell list" where
  "subscribe ob d cs =
     (if d < length cs
      then (case cs ! d of
              Unresolved obs \<Rightarrow> cs[d := Unresolved (obs @ [ob])]
            | Resolved _ \<Rightarrow> cs)
      else cs)"

text \<open>
  Modelled from the spec: \<open>fan_in(list)\<close> returns a new deferred value over the ordered
  collection of the members' values: resolved at once when every member already is,
  and otherwise observing each member that is not.
\<close>

definition fan_in :: "nat list \<Rightarrow> store \<Rightarrow> dv_error + (nat \<times> store)" where
  "fan_in ms s =
     (let g = length (cells s) in
      case filter (\<lambda>m. length (cells s) \<le> m) ms of
        m # _ \<Rightarrow> Inl (NoSuchValue m)
      | [] \<Rightarrow>
          (case those (map (value_of s) ms) of
             Some vs \<Rightarrow>
               Inr (g, s\<lparr>cells := cells s @ [Resolved (Collection vs)], fired := fired s @ [g]\<rparr>)
           | None \<Rightarrow>
               Inr (g, s\<lparr>cells := fold (subscribe (Gather g ms)) (remdups ms) (cells s)
                                    @ [Unresolved []]\<rparr>)))"

text \<open>Modelled from the spec: the operations a program can perform on a store, and a run of them.\<close>

datatype op =
    New
  | Resolve nat val
  | TransformOp "val \<Rightarrow> val" nat
  | FanIn "nat list"

fun apply_op :: "op \<Rightarrow> store \<Rightarrow> dv_error + store" where
  "apply_op New s = Inr (snd (new_deferred s))"
| "apply_op (Resolve d v) s = resolve d v s"
| "apply_op (TransformOp f d) s = map_sum id snd (transform f d s)"
| "apply_op (FanIn ms) s = map_sum id snd (fan_in ms s)"

fun run_ops :: "op list \<Rightarrow> store \<Rightarrow> dv_error + store" where
  "run_ops [] s = Inr s"
| "run_ops (x # xs) s = (case apply_op x s of Inl e \<Rightarrow> Inl e | Inr s' \<Rightarrow> run_ops xs s')"

subsection \<open>Well-formed stores\<close>

text \<open>
  Modelled from the spec: an observer on placeholder \<open>i\<close> resolves its \<open>target\<close>, the
  deferred value that \<open>transform\<close> or \<open>fan_in\<close> returned, once the placeholders it waits
  for have resolved: \<open>i\<close> itself for a transformation, the members for a fan-in.
\<close>

fun target :: "observer \<Rightarrow> nat" where
  "target (Transform f t) = t"
| "target (Gather g ms) = g"

fun members :: "nat \<Rightarrow> observer \<Rightarrow> nat list" where
  "members i (Transform f t) = [i]"
| "members i (Gather g ms) = ms"

fun observers :: "cell \<Rightarrow> observer list" where
  "observers (Unresolved obs) = obs"
| "observers (Resolved v) = []"

text \<open>
  Modelled from the spec: the pending lists that \<open>transform\<close> and \<open>fan_in\<close> build. The
  deferred value an observer resolves was created after the placeholder the observer
  is on; it is resolved by no second observer on that placeholder; the placeholder is
  among those the observer waits for; and all observers that resolve the same deferred
  value wait for the same placeholders.
\<close>

definition pending_ok :: "store \<Rightarrow> bool" where
  "pending_ok s =
     (\<forall>i \<in> set [0..<length (cells s)].
        distinct (map target (observers (cells s ! i))) \<and>
        (\<forall>ob \<in> set (observers (cells s ! i)).
           i < target ob \<and> target ob < length (cells s) \<and> i \<in> set (members i ob) \<and>
           (\<forall>j \<in> set [0..<length (cells s)]. \<forall>ob' \<in> set (observers (cells s ! j)).
              target ob' = target ob \<longrightarrow> members j ob' = members i ob)))"

text \<open>
  Modelled from the spec: a deferred value made by \<open>transform\<close> or \<open>fan_in\<close> is resolved
  by its observers and by nothing else: while an observer is pending, the deferred
  value it resolves is unresolved.
\<close>

definition well_formed :: "store \<Rightarrow> bool" where
  "well_formed s =
     (pending_ok s \<and>
      (\<forall>i \<in> set [0..<length (cells s)]. \<forall>ob \<in> set (observers (cells s ! i)).
         value_of s (target ob) = None))"

text \<open>
  The resolutions that are still to be carried out while \<open>resolve\<close> runs on placeholder
  \<open>d\<close>: each is for an unresolved deferred value created after \<open>d\<close> that no pending
  observer resolves, and no two are for the same one.
\<close>

definition deliverable :: "nat \<Rightarrow> (nat \<times> val) list \<Rightarrow> store \<Rightarrow> bool" where
  "deliverable d wl s =
     (pending_ok s \<and>
      (\<forall>i \<in> set [0..<length (cells s)]. \<forall>ob \<in> set (observers (cells s ! i)).
         value_of s (target ob) = None \<or> target ob = d) \<and>
      (\<forall>t \<in> set (map fst wl).
         d < t \<and> t < length (cells s) \<and> value_of s t = None \<and>
         (\<forall>i \<in> set [0..<length (cells s)]. \<forall>ob \<in> set (observers (cells s ! i)).
            target ob \<noteq> t)) \<and>
      distinct (map fst wl))"

section \<open>Properties of the string helpers\<close>




section \<open>Worker bootstrap payloads\<close>








section \<open>Security policy\<close>

text \<open>
  Claim C7. The ingress rules for TCP 6443 and UDP 8472 are one rule each, whose only
  source range is the \<^verbatim>\<open>cidr_block\<close> attribute of the script's subnet, whatever the
  configuration; resolved, it is the subnet's range as the provider reports it. The
  open internet is not a source of either rule, and the whole ingress policy admits
  neither port from the open internet.
\<close>

theorem cluster_ports_subnet_scoped:
  "map cidr_blocks (port_rules ''tcp'' 6443 (ingress k3s_security_group))
     = [[Attr (resource_name (public_subnet cfg)) CidrBlock]] \<and>
   map cidr_blocks (port_rules ''udp'' 8472 (ingress k3s_security_group))
     = [[Attr (resource_name (public_subnet cfg)) CidrBlock]] \<and>
   map (map (resolve_input env) \<circ> cidr_blocks)
       (port_rules ''tcp'' 6443 (ingress k3s_security_group)
        @ port_rules ''udp'' 8472 (ingress k3s_security_group))
     = [[env (''public-subnet'', CidrBlock)], [env (''public-subnet'', CidrBlock)]] \<and>
   open_internet \<notin> set (concat (map cidr_blocks
       (port_rules ''tcp'' 6443 (ingress k3s_security_group)
        @ port_rules ''udp'' 8472 (ingress k3s_security_group)))) \<and>
   \<not> policy_admits (ingress k3s_security_group) ''tcp'' 6443 open_internet \<and>
   \<not> policy_admits (ingress k3s_security_group) ''udp'' 8472 open_internet"
  by (simp add: k3s_security_group_def k3s_ingress_def port_rules_def public_subnet_def
      subnet_range_def open_internet_def policy_admits_def rule_admits_def)

text \<open>
  Claim C8. The rules for SSH (TCP 22) and HTTP (TCP 80) name the open internet as their
  source; the rule for HTTPS (TCP 443) names the subnet only, and the ingress policy does
  not admit port 443 from the open internet.
\<close>

theorem https_not_open:
  "map cidr_blocks (port_rules ''tcp'' 22 (ingress k3s_security_group)) = [[open_internet]] \<and>
   map cidr_blocks (port_rules ''tcp'' 80 (ingress k3s_security_group)) = [[open_internet]] \<and>
   map cidr_blocks (port_rules ''tcp'' 443 (ingress k3s_security_group)) = [[subnet_range]] \<and>
   policy_admits (ingress k3s_security_group) ''tcp'' 22 open_internet \<and>
   policy_admits (ingress k3s_security_group) ''tcp'' 80 open_internet \<and>
   \<not> policy_admits (ingress k3s_security_group) ''tcp'' 443 open_internet"
  by (simp add: k3s_security_group_def k3s_ingress_def port_rules_def
      subnet_range_def open_internet_def policy_admits_def rule_admits_def)

text \<open>
  Claim C10. The ingress rules hold a rule with protocol \<^verbatim>\<open>-1\<close> and ports 0 to 0 from
  the subnet; the policy therefore admits every protocol and port from the subnet, and
  it admits exactly the same traffic when the three subnet-scoped port rules
  (6443, 8472, 443) are left out.
\<close>

theorem all_traffic_from_subnet:
  "\<lparr>protocol = ''-1'', from_port = 0, to_port = 0, cidr_blocks = [subnet_range]\<rparr>
     \<in> set (ingress k3s_security_group) \<and>
   policy_admits (ingress k3s_security_group) proto port subnet_range \<and>
   map from_port (filter (\<lambda>r. protocol r \<noteq> ''-1'' \<and> cidr_blocks r = [subnet_range])
                    (ingress k3s_security_group)) = [6443, 8472, 443] \<and>
   policy_admits (filter (\<lambda>r. \<not> (protocol r \<noteq> ''-1'' \<and> cidr_blocks r = [subnet_range]))
                    (ingress k3s_security_group)) proto port src
     = policy_admits (ingress k3s_security_group) proto port src"
  by (auto simp add: k3s_security_group_def k3s_ingress_def
      subnet_range_def open_internet_def policy_admits_def rule_admits_def)

section \<open>Creation order\<close>

lemma worker_name_not_network:
  "''worker'' @ s \<notin> {''my-vpc'', ''public-subnet'', ''internet-gateway'', ''public-route-table'',
      ''igw-route'', ''public-route-table-association'', ''k3s-secgrp'', ''master-instance''}"
  by simp

lemma workers_memD:
  assumes "w \<in> set (workers cfg n)"
  obtains i where "1 \<le> i" "i \<le> n" "w = worker_instance cfg i"
  using assms unfolding workers_def by (auto simp del: upt_Suc)

lemma worker_instance_name:
  "resource_name (worker_instance cfg i) = ''worker'' @ str_nat i @ ''-instance''"
  by (simp add: worker_instance_def)

lemma worker_instance_depends_on:
  "resource_depends_on (worker_instance cfg i) = [''master-instance'']"
  by (simp add: worker_instance_def)

lemma declarations_names:
  "map resource_name (declarations cfg n) =
     [''my-vpc'', ''public-subnet'', ''internet-gateway'', ''public-route-table'',
      ''igw-route'', ''public-route-table-association'', ''k3s-secgrp'', ''master-instance'']
     @ map resource_name (workers cfg n)"
  by (simp add: declarations_def vpc_def public_subnet_def igw_def public_route_table_def
      route_def route_table_association_def master_instance_def)

lemma named_like_worker:
  assumes "r \<in> set (declarations cfg n)" "resource_name r = ''worker'' @ s"
  shows "r \<in> set (workers cfg n)"
proof (rule ccontr)
  assume "r \<notin> set (workers cfg n)"
  with assms(1) have "r \<in> {vpc cfg, public_subnet cfg, igw, public_route_table, route,
      route_table_association, SecurityGroup ''k3s-secgrp'' k3s_security_group, master_instance cfg}"
    by (simp add: declarations_def)
  then have "resource_name r \<in> {''my-vpc'', ''public-subnet'', ''internet-gateway'',
      ''public-route-table'', ''igw-route'', ''public-route-table-association'', ''k3s-secgrp'',
      ''master-instance''}"
    by (auto simp: vpc_def public_subnet_def igw_def public_route_table_def
      route_def route_table_association_def master_instance_def)
  with assms(2) worker_name_not_network [of s] show False by simp
qed

lemma admissible_dependency_first:
  assumes "admissible rs issued order" "x \<in> set order"
    and "\<And>r. r \<in> set rs \<Longrightarrow> resource_name r = x \<Longrightarrow> d \<in> set (resource_depends_on r)"
  shows "d \<in> set issued \<or> d \<in> set (takeWhile (\<lambda>y. y \<noteq> x) order)"
  using assms(1,2)
proof (induction order arbitrary: issued)
  case Nil
  then show ?case by simp
next
  case (Cons y ys)
  show ?case
  proof (cases "y = x")
    case True
    from Cons.prems(1) obtain r where "r \<in> set rs" "resource_name r = y"
      "set (resource_depends_on r) \<subseteq> set issued"
      by (auto simp: list_ex_iff)
    with True assms(3) show ?thesis by auto
  next
    case False
    with Cons.prems have "admissible rs (issued @ [y]) ys" "x \<in> set ys" by auto
    then have "d \<in> set (issued @ [y]) \<or> d \<in> set (takeWhile (\<lambda>y. y \<noteq> x) ys)"
      by (rule Cons.IH)
    with False show ?thesis by auto
  qed
qed

lemma master_declared_before_worker:
  assumes "w \<in> set (workers cfg n)"
  shows "issued_before ''master-instance'' (resource_name w) (map resource_name (declarations cfg n))"
proof -
  from assms obtain i where w: "w = worker_instance cfg i" by (rule workers_memD)
  let ?net = "[''my-vpc'', ''public-subnet'', ''internet-gateway'', ''public-route-table'',
      ''igw-route'', ''public-route-table-association'', ''k3s-secgrp'', ''master-instance'']"
  have "\<forall>y\<in>set ?net. y \<noteq> resource_name w"
    using worker_name_not_network [of "str_nat i @ ''-instance''"]
    unfolding w worker_instance_name by auto
  then have "takeWhile (\<lambda>y. y \<noteq> resource_name w) (?net @ map resource_name (workers cfg n))
      = ?net @ takeWhile (\<lambda>y. y \<noteq> resource_name w) (map resource_name (workers cfg n))"
    by (rule takeWhile_append2 [OF bspec])
  then show ?thesis
    unfolding issued_before_def declarations_names by simp
qed

text \<open>
  Claim C3. Every worker instance of the script, for every worker count, carries the
  explicit constraint \<^verbatim>\<open>depends_on=[master_instance]\<close>, besides taking its payload from
  the master's private address; the script declares the master before every worker; and
  in every run of an engine that honours the explicit constraints, a worker's creation
  request comes after the master's.
\<close>

theorem workers_created_after_master:
  "\<forall>w \<in> set (workers cfg n).
     resource_depends_on w = [resource_name (master_instance cfg)] \<and>
     (\<exists>name i f. w = Instance name i \<and>
        user_data i = Applied (resource_name (master_instance cfg)) PrivateIp f) \<and>
     issued_before (resource_name (master_instance cfg)) (resource_name w)
        (map resource_name (declarations cfg n)) \<and>
     (\<forall>order. admissible (declarations cfg n) [] order \<longrightarrow> resource_name w \<in> set order \<longrightarrow>
        issued_before (resource_name (master_instance cfg)) (resource_name w) order)"
proof
  fix w assume mem: "w \<in> set (workers cfg n)"
  then obtain i where w: "w = worker_instance cfg i" by (rule workers_memD)
  have m: "resource_name (master_instance cfg) = ''master-instance''"
    by (simp add: master_instance_def)
  have 1: "resource_depends_on w = [''master-instance'']"
    unfolding w by (rule worker_instance_depends_on)
  have 2: "\<exists>name i f. w = Instance name i \<and> user_data i = Applied ''master-instance'' PrivateIp f"
    unfolding w worker_instance_def by simp
  have 3: "issued_before ''master-instance'' (resource_name w)
             (map resource_name (declarations cfg n))"
    using mem by (rule master_declared_before_worker)
  have 4: "issued_before ''master-instance'' (resource_name w) order"
    if a: "admissible (declarations cfg n) [] order" and x: "resource_name w \<in> set order"
    for order
  proof -
    have "''master-instance'' \<in> set (resource_depends_on r)"
      if "r \<in> set (declarations cfg n)" "resource_name r = resource_name w" for r
    proof -
      from that have "r \<in> set (workers cfg n)"
        unfolding w worker_instance_name by (rule named_like_worker)
      then obtain j where "r = worker_instance cfg j" by (rule workers_memD)
      then show ?thesis by (simp add: worker_instance_depends_on)
    qed
    with a x have "''master-instance'' \<in> set [] \<or>
        ''master-instance'' \<in> set (takeWhile (\<lambda>y. y \<noteq> resource_name w) order)"
      by (rule admissible_dependency_first)
    then show ?thesis by (simp add: issued_before_def)
  qed
  from 1 2 3 4 show "resource_depends_on w = [resource_name (master_instance cfg)] \<and>
     (\<exists>name i f. w = Instance name i \<and>
        user_data i = Applied (resource_name (master_instance cfg)) PrivateIp f) \<and>
     issued_before (resource_name (master_instance cfg)) (resource_name w)
        (map resource_name (declarations cfg n)) \<and>
     (\<forall>order. admissible (declarations cfg n) [] order \<longrightarrow> resource_name w \<in> set order \<longrightarrow>
        issued_before (resource_name (master_instance cfg)) (resource_name w) order)"
    unfolding m by blast
qed

lemma program_order_admissible:
  "admissible (program Map.empty) []
     [''my-vpc'', ''master-instance'', ''worker2-instance'', ''worker1-instance'']"
  by (simp add: program_def declarations_def workers_def worker_instance_def num_workers_def
      master_instance_def vpc_def str_nat.simps digit_char_def numeral_2_eq_2)

theorem workers_created_after_master_witness:
  "worker_instance Map.empty 2 \<in> set (workers Map.empty num_workers) \<and>
   admissible (declarations Map.empty num_workers) []
     [''my-vpc'', ''master-instance'', ''worker2-instance'', ''worker1-instance''] \<and>
   resource_depends_on (worker_instance Map.empty 2) = [''master-instance''] \<and>
   issued_before ''master-instance'' ''worker2-instance''
     [''my-vpc'', ''master-instance'', ''worker2-instance'', ''worker1-instance'']"
proof -
  let ?w = "worker_instance Map.empty 2"
  let ?order = "[''my-vpc'', ''master-instance'', ''worker2-instance'', ''worker1-instance'']"
  have mem: "?w \<in> set (workers Map.empty num_workers)"
    by (simp add: workers_def num_workers_def numeral_2_eq_2)
  have adm: "admissible (declarations Map.empty num_workers) [] ?order"
    using program_order_admissible by (simp add: program_def)
  have nm: "resource_name ?w = ''worker2-instance''"
    by (simp add: worker_instance_name str_nat.simps digit_char_def)
  have m: "resource_name (master_instance Map.empty) = ''master-instance''"
    by (simp add: master_instance_def)
  note t = workers_created_after_master [of Map.empty num_workers, THEN bspec, OF mem, unfolded nm m]
  from t have d: "resource_depends_on ?w = [''master-instance'']" by (rule conjunct1)
  from t have "\<forall>order. admissible (declarations Map.empty num_workers) [] order \<longrightarrow>
      ''worker2-instance'' \<in> set order \<longrightarrow> issued_before ''master-instance'' ''worker2-instance'' order"
    by (elim conjE)
  then have "admissible (declarations Map.empty num_workers) [] ?order \<longrightarrow>
      ''worker2-instance'' \<in> set ?order \<longrightarrow> issued_before ''master-instance'' ''worker2-instance'' ?order"
    by (rule spec)
  with adm have b: "issued_before ''master-instance'' ''worker2-instance'' ?order" by simp
  from mem adm d b show ?thesis by (intro conjI)
qed

section \<open>The SSH configuration file\<close>

lemma config_lines_zip:
  assumes "idx + length hs \<le> length all_ips"
  shows "config_lines all_ips idx hs acc =
         Inr (acc @ concat (map (\<lambda>(h, ip). host_lines h ip) (zip hs (drop idx all_ips))))"
  using assms
proof (induction hs arbitrary: idx acc)
  case Nil
  then show ?case by simp
next
  case (Cons h hs)
  then have lt: "idx < length all_ips" and le: "Suc idx + length hs \<le> length all_ips"
    by simp_all
  from lt have d: "drop idx all_ips = all_ips ! idx # drop (Suc idx) all_ips"
    by (rule Cons_nth_drop_Suc [symmetric])
  show ?case
    using lt by (simp add: Cons.IH [OF le] d)
qed

lemma config_lines_short:
  assumes "idx \<le> length all_ips" "length all_ips < idx + length hs"
  shows "config_lines all_ips idx hs acc = Inl IndexError"
  using assms by (induction hs arbitrary: idx acc) auto

lemma length_hosts: "length (hosts nw) = Suc nw"
  by (simp add: hosts_def)

lemma config_content_ok:
  assumes "Suc nw \<le> length all_ips"
  shows "config_content nw all_ips =
         Inr (join NL (concat (map (\<lambda>(h, ip). host_lines h ip) (zip (hosts nw) all_ips))))"
  using assms config_lines_zip [where idx = 0 and all_ips = all_ips and hs = "hosts nw" and acc = "[]"]
  by (simp add: config_content_def length_hosts)

lemma config_content_short:
  assumes "length all_ips < Suc nw"
  shows "config_content nw all_ips = Inl IndexError"
  using assms config_lines_short [where idx = 0 and all_ips = all_ips and hs = "hosts nw" and acc = "[]"]
  by (simp add: config_content_def length_hosts)

text \<open>The write replaces whatever the file held, and a second write changes nothing.\<close>

lemma create_config_file_overwrites:
  assumes "create_config_file expanduser nw all_ips fs = Inr fs'"
  shows "\<exists>c. config_content nw all_ips = Inr c \<and>
             fs' = fs\<lparr>files := (files fs)(expanduser ''~/.ssh/config'' \<mapsto> c)\<rparr>"
  using assms
  by (auto simp: create_config_file_def Let_def split: sum.splits if_splits)

lemma create_config_file_idem:
  assumes "create_config_file expanduser nw all_ips fs = Inr fs'"
  shows "create_config_file expanduser nw all_ips fs' = Inr fs'"
  using assms
  by (auto simp: create_config_file_def Let_def split: sum.splits if_splits)

lemma create_config_file_old_content:
  assumes "create_config_file expanduser nw all_ips fs = Inr fs'"
  shows "create_config_file expanduser nw all_ips
           (fs\<lparr>files := (files fs)(expanduser ''~/.ssh/config'' := old)\<rparr>) = Inr fs'"
  using assms
  by (auto simp: create_config_file_def Let_def split: sum.splits if_splits)

text \<open>
  Claim C9. With one worker and the addresses \<^verbatim>\<open>1.1.1.1\<close> and \<^verbatim>\<open>2.2.2.2\<close> the file
  written has, for each host, the four lines \<^verbatim>\<open>Host\<close>, \<^verbatim>\<open>HostName\<close>, \<^verbatim>\<open>User\<close> and
  \<^verbatim>\<open>IdentityFile\<close>, and between the two entries two empty lines, not one: one from the
  newline that ends the \<^verbatim>\<open>IdentityFile\<close> string and one from the empty string
  appended after it.
\<close>

theorem config_file_two_blank_lines:
  "config_content 1 [''1.1.1.1'', ''2.2.2.2''] =
     Inr (''Host master'' @ NL @ ''  HostName 1.1.1.1'' @ NL @ ''  User ubuntu'' @ NL @
          ''  IdentityFile ~/.ssh/k3s-cluster.id_rsa'' @ NL @ NL @ NL @
          ''Host worker-1'' @ NL @ ''  HostName 2.2.2.2'' @ NL @ ''  User ubuntu'' @ NL @
          ''  IdentityFile ~/.ssh/k3s-cluster.id_rsa'' @ NL @ NL) \<and>
   map_sum id split_lines (config_content 1 [''1.1.1.1'', ''2.2.2.2'']) =
     Inr [''Host master'', ''  HostName 1.1.1.1'', ''  User ubuntu'',
          ''  IdentityFile ~/.ssh/k3s-cluster.id_rsa'', '''', '''',
          ''Host worker-1'', ''  HostName 2.2.2.2'', ''  User ubuntu'',
          ''  IdentityFile ~/.ssh/k3s-cluster.id_rsa'', '''', ''''] \<and>
   map_sum id (\<lambda>fs. files fs (expanduser ''~/.ssh/config''))
     (create_config_file expanduser 1 [''1.1.1.1'', ''2.2.2.2'']
        \<lparr>files = Map.empty, openable = \<lambda>p. True\<rparr>) =
     map_sum id Some (config_content 1 [''1.1.1.1'', ''2.2.2.2''])"
  by (simp add: config_content_def hosts_def host_lines_def str_nat.simps digit_char_def
      NL_def create_config_file_def)

section \<open>Deferred values: single assignment\<close>

lemma settleE:
  assumes "settle d v s = Inr (new, s')"
  obtains obs where "d < length (cells s)" "cells s ! d = Unresolved obs"
    "s' = s\<lparr>cells := (cells s)[d := Resolved v], fired := fired s @ [d]\<rparr>"
    "new = concat (map (notify s' v) obs)"
  using assms
  by (auto simp: settle_def Let_def split: if_splits cell.splits)

lemma settle_resolved:
  assumes "value_of s d = Some a"
  shows "settle d v s = Inl (AlreadyResolved d)"
  using assms
  by (auto simp: settle_def value_of_def cell_value_def split: if_splits cell.splits)

lemma settle_length:
  assumes "settle d v s = Inr (new, s')"
  shows "length (cells s') = length (cells s)"
  using assms by (auto elim!: settleE)

lemma settle_value_of:
  assumes "settle d v s = Inr (new, s')"
  shows "value_of s' x = (if x = d then Some v else value_of s x)"
  using assms by (auto elim!: settleE simp: value_of_def cell_value_def)

lemma settle_unresolved_before:
  assumes "settle d v s = Inr (new, s')"
  shows "value_of s d = None"
  using assms by (auto elim!: settleE simp: value_of_def cell_value_def)

lemma settle_fired:
  assumes "settle d v s = Inr (new, s')"
  shows "fired s' = fired s @ [d]"
  using assms by (auto elim!: settleE)

lemma deliver_length:
  assumes "deliver wl s = Inr s'"
  shows "length (cells s') = length (cells s)"
  using assms
proof (induction wl s rule: deliver.induct)
  case (1 s)
  then show ?case by simp
next
  case (2 d v wl s)
  from "2.prems" obtain new s1 where st: "settle d v s = Inr (new, s1)"
    and dl: "deliver (new @ wl) s1 = Inr s'"
    by (auto split: sum.splits)
  from "2.IH" [OF st refl dl] settle_length [OF st] show ?case by simp
qed

lemma deliver_keeps_value:
  assumes "deliver wl s = Inr s'" "value_of s x = Some a"
  shows "value_of s' x = Some a"
  using assms
proof (induction wl s rule: deliver.induct)
  case (1 s)
  then show ?case by simp
next
  case (2 d v wl s)
  from "2.prems"(1) obtain new s1 where st: "settle d v s = Inr (new, s1)"
    and dl: "deliver (new @ wl) s1 = Inr s'"
    by (auto split: sum.splits)
  from st have "value_of s d = None" by (rule settle_unresolved_before)
  with "2.prems"(2) have "x \<noteq> d" by auto
  with "2.prems"(2) have "value_of s1 x = Some a"
    by (simp add: settle_value_of [OF st])
  with "2.IH" [OF st refl dl] show ?case by simp
qed

lemma deliver_append:
  "deliver (w1 @ w2) s = (case deliver w1 s of Inl e \<Rightarrow> Inl e | Inr s' \<Rightarrow> deliver w2 s')"
proof (induction w1 s rule: deliver.induct)
  case (1 s)
  then show ?case by simp
next
  case (2 d v wl s)
  show ?case
  proof (cases "settle d v s")
    case (Inl e)
    then show ?thesis by simp
  next
    case (Inr p)
    obtain new s1 where p: "p = (new, s1)" by (cases p)
    from "2.IH" [OF Inr [unfolded p] refl] show ?thesis
      using Inr p by simp
  qed
qed

lemma resolve_sets_value:
  assumes "resolve d v s = Inr s'"
  shows "value_of s' d = Some v"
proof -
  from assms obtain new s1 where st: "settle d v s = Inr (new, s1)"
    and dl: "deliver (new @ []) s1 = Inr s'"
    unfolding resolve_def by (auto split: sum.splits)
  from st have "value_of s1 d = Some v" by (simp add: settle_value_of)
  with dl show ?thesis by (rule deliver_keeps_value)
qed

lemma resolve_resolved:
  assumes "value_of s d = Some a"
  shows "resolve d v s = Inl (AlreadyResolved d)"
  using settle_resolved [OF assms] by (simp add: resolve_def)


text \<open>Registering observers leaves the values alone.\<close>

lemma cell_value_simps [simp]:
  "cell_value (Resolved v) = Some v" "cell_value (Unresolved obs) = None"
  by (simp_all add: cell_value_def)

lemma value_of_eq_nth:
  "value_of s d = (if d < length (cells s) then map cell_value (cells s) ! d else None)"
  by (simp add: value_of_def)

lemma value_of_cong:
  assumes "map cell_value (cells s') = map cell_value (cells s)"
  shows "value_of s' = value_of s"
proof
  fix d
  from assms have "length (cells s') = length (cells s)" by (rule map_eq_imp_length_eq)
  with assms show "value_of s' d = value_of s d" by (simp add: value_of_eq_nth)
qed

lemma subscribe_length [simp]: "length (subscribe ob m cs) = length cs"
  by (simp add: subscribe_def split: cell.splits)

lemma subscribe_values [simp]: "map cell_value (subscribe ob m cs) = map cell_value cs"
  by (auto simp: subscribe_def map_update list_update_same_conv split: cell.splits)

lemma fold_subscribe_length [simp]: "length (fold (subscribe ob) ms cs) = length cs"
  by (induction ms arbitrary: cs) simp_all

lemma fold_subscribe_values [simp]:
  "map cell_value (fold (subscribe ob) ms cs) = map cell_value cs"
  by (induction ms arbitrary: cs) simp_all

lemma value_of_append:
  "value_of (s\<lparr>cells := cs @ [c]\<rparr>) x =
     (if x < length cs then cell_value (cs ! x) else if x = length cs then cell_value c else None)"
  by (auto simp: value_of_def nth_append)

lemma new_deferred_value_of:
  "value_of (snd (new_deferred s)) x = value_of s x"
  by (auto simp: new_deferred_def value_of_def nth_append)

lemma transform_value_of:
  assumes "transform f d s = Inr (t, s')"
  shows "t = length (cells s)" "length (cells s') = Suc (length (cells s))"
    "value_of s' x = (if x = t then map_option f (value_of s d) else value_of s x)"
  using assms
  by (auto simp: transform_def Let_def value_of_def nth_append nth_list_update
      split: if_splits cell.splits)

lemma fan_in_value_of:
  assumes "fan_in ms s = Inr (g, s')"
  shows "g = length (cells s)" "length (cells s') = Suc (length (cells s))"
    "value_of s' x = (if x = g then map_option Collection (those (map (value_of s) ms))
                      else value_of s x)"
proof -
  from assms show g: "g = length (cells s)"
    by (auto simp: fan_in_def Let_def split: list.splits option.splits)
  from assms show "length (cells s') = Suc (length (cells s))"
    by (auto simp: fan_in_def Let_def split: list.splits option.splits)
  show "value_of s' x = (if x = g then map_option Collection (those (map (value_of s) ms))
                      else value_of s x)"
  proof (cases "those (map (value_of s) ms)")
    case None
    with assms have s': "s' = s\<lparr>cells := fold (subscribe (Gather g ms)) (remdups ms) (cells s)
                                    @ [Unresolved []]\<rparr>"
      by (auto simp: fan_in_def Let_def split: list.splits)
    have "value_of s' x = (if x < length (cells s) then cell_value (cells s ! x) else None)"
      unfolding s' value_of_append
      using nth_map [of x "fold (subscribe (Gather g ms)) (remdups ms) (cells s)" cell_value]
      by auto
    with None g show ?thesis by (auto simp: value_of_def)
  next
    case (Some vs)
    with assms have s': "s' = s\<lparr>cells := cells s @ [Resolved (Collection vs)],
                             fired := fired s @ [g]\<rparr>"
      by (auto simp: fan_in_def Let_def split: list.splits)
    with Some g show ?thesis by (auto simp: value_of_def nth_append)
  qed
qed

lemma apply_op_keeps_value:
  assumes "apply_op x s = Inr s'" "value_of s d = Some a"
  shows "value_of s' d = Some a"
proof (cases x)
  case New
  with assms show ?thesis by (auto simp: new_deferred_value_of)
next
  case (Resolve e v)
  with assms(1) have "deliver [(e, v)] s = Inr s'"
    by (simp add: resolve_def del: deliver.simps)
  then show ?thesis using assms(2) by (rule deliver_keeps_value)
next
  case (TransformOp f e)
  with assms(1) obtain t where t: "transform f e s = Inr (t, s')"
    by (cases "transform f e s") auto
  from assms(2) have "d < length (cells s)" by (auto simp: value_of_def split: if_splits)
  with assms(2) show ?thesis by (simp add: transform_value_of [OF t])
next
  case (FanIn ms)
  with assms(1) obtain g where g: "fan_in ms s = Inr (g, s')"
    by (cases "fan_in ms s") auto
  from assms(2) have "d < length (cells s)" by (auto simp: value_of_def split: if_splits)
  with assms(2) show ?thesis by (simp add: fan_in_value_of [OF g])
qed

lemma run_ops_keeps_value:
  assumes "run_ops xs s = Inr s'" "value_of s d = Some a"
  shows "value_of s' d = Some a"
  using assms
proof (induction xs arbitrary: s)
  case Nil
  then show ?case by simp
next
  case (Cons x xs)
  from Cons.prems(1) obtain s1 where 1: "apply_op x s = Inr s1" and 2: "run_ops xs s1 = Inr s'"
    by (auto split: sum.splits)
  from 1 Cons.prems(2) have "value_of s1 d = Some a" by (rule apply_op_keeps_value)
  with 2 show ?case by (rule Cons.IH)
qed

lemma resolve_no_observers:
  assumes "d < length (cells s)" "cells s ! d = Unresolved []"
  shows "resolve d v s = Inr (s\<lparr>cells := (cells s)[d := Resolved v], fired := fired s @ [d]\<rparr>)"
  using assms by (simp add: resolve_def settle_def)

subsection \<open>Resolving an observed placeholder\<close>

lemma pending_okD:
  assumes "pending_ok s" "i < length (cells s)" "ob \<in> set (observers (cells s ! i))"
  shows "i < target ob" "target ob < length (cells s)" "i \<in> set (members i ob)"
    "distinct (map target (observers (cells s ! i)))"
    "\<And>j ob'. j < length (cells s) \<Longrightarrow> ob' \<in> set (observers (cells s ! j)) \<Longrightarrow>
        target ob' = target ob \<Longrightarrow> members j ob' = members i ob"
proof -
  from assms(2) have i: "i \<in> set [0..<length (cells s)]" by simp
  from assms(1) i have 1: "distinct (map target (observers (cells s ! i)))"
    and 2: "\<forall>ob \<in> set (observers (cells s ! i)).
           i < target ob \<and> target ob < length (cells s) \<and> i \<in> set (members i ob) \<and>
           (\<forall>j \<in> set [0..<length (cells s)]. \<forall>ob' \<in> set (observers (cells s ! j)).
              target ob' = target ob \<longrightarrow> members j ob' = members i ob)"
    unfolding pending_ok_def by blast+
  from 2 assms(3) have 3: "i < target ob \<and> target ob < length (cells s) \<and> i \<in> set (members i ob) \<and>
           (\<forall>j \<in> set [0..<length (cells s)]. \<forall>ob' \<in> set (observers (cells s ! j)).
              target ob' = target ob \<longrightarrow> members j ob' = members i ob)"
    by (rule bspec)
  from 3 show "i < target ob" "target ob < length (cells s)" "i \<in> set (members i ob)"
    by blast+
  show "distinct (map target (observers (cells s ! i)))" by (rule 1)
  fix j ob' assume j: "j < length (cells s)" and ob': "ob' \<in> set (observers (cells s ! j))"
    and e: "target ob' = target ob"
  from j have "j \<in> set [0..<length (cells s)]" by simp
  with 3 ob' e show "members j ob' = members i ob" by blast
qed

lemma those_Some_all:
  assumes "those xs = Some ys" "x \<in> set xs"
  shows "x \<noteq> None"
  using assms
  by (induction xs arbitrary: ys) (auto split: option.splits)

lemma notify_target:
  assumes "tv \<in> set (notify s v ob)"
  shows "fst tv = target ob"
  using assms by (cases ob) (auto split: option.splits)

lemma notify_fires:
  assumes "tv \<in> set (notify s v ob)" "value_of s i \<noteq> None" "m \<in> set (members i ob)"
  shows "value_of s m \<noteq> None"
proof -
  show "value_of s m \<noteq> None"
  proof (cases ob)
    case (Transform f t)
    with assms(2,3) show ?thesis by simp
  next
    case (Gather g ms)
    with assms(1) obtain vs where "those (map (value_of s) ms) = Some vs"
      by (cases "those (map (value_of s) ms)") auto
    moreover from Gather assms(3) have "value_of s m \<in> set (map (value_of s) ms)" by simp
    ultimately show ?thesis by (rule those_Some_all)
  qed
qed

lemma notify_fst:
  "map fst (notify s v ob) = [] \<or> map fst (notify s v ob) = [target ob]"
  by (cases ob) (auto split: option.splits)

lemma notify_all_fst:
  "set (map fst (concat (map (notify s v) obs))) \<subseteq> set (map target obs)"
proof (induction obs)
  case Nil
  then show ?case by simp
next
  case (Cons ob obs)
  from notify_fst [of s v ob] Cons show ?case by auto
qed

lemma notify_all_distinct:
  assumes "distinct (map target obs)"
  shows "distinct (map fst (concat (map (notify s v) obs)))"
  using assms
proof (induction obs)
  case Nil
  then show ?case by simp
next
  case (Cons ob obs)
  from Cons.prems have d: "distinct (map target obs)" and n: "target ob \<notin> set (map target obs)"
    by simp_all
  define rest where "rest = map fst (concat (map (notify s v) obs))"
  from n notify_all_fst [of s v obs] have "target ob \<notin> set rest"
    unfolding rest_def by blast
  moreover from Cons.IH [OF d] have "distinct rest" by (simp add: rest_def)
  moreover have "map fst (concat (map (notify s v) (ob # obs))) = map fst (notify s v ob) @ rest"
    by (simp add: rest_def)
  ultimately show ?case using notify_fst [of s v ob] by auto
qed

lemma settle_observers:
  assumes "settle d v s = Inr (new, s')" "i < length (cells s)"
  shows "observers (cells s' ! i) = (if i = d then [] else observers (cells s ! i))"
  using assms by (auto elim!: settleE simp: nth_list_update)

lemma settle_pending_ok:
  assumes st: "settle d v s = Inr (new, s')" and p: "pending_ok s"
  shows "pending_ok s'"
proof -
  have len: "length (cells s') = length (cells s)" using st by (rule settle_length)
  have sub: "\<And>i ob. i < length (cells s) \<Longrightarrow> ob \<in> set (observers (cells s' ! i)) \<Longrightarrow>
      ob \<in> set (observers (cells s ! i))"
    by (simp add: settle_observers [OF st] split: if_splits)
  show ?thesis
    unfolding pending_ok_def len
  proof (intro ballI conjI)
    fix i assume "i \<in> set [0..<length (cells s)]"
    then have i: "i < length (cells s)" by simp
    show "distinct (map target (observers (cells s' ! i)))"
    proof (cases "i = d")
      case True
      with i show ?thesis by (simp add: settle_observers [OF st])
    next
      case False
      then show ?thesis
      proof (cases "observers (cells s ! i)")
        case Nil
        with i False show ?thesis by (simp add: settle_observers [OF st])
      next
        case (Cons ob obs)
        then have "ob \<in> set (observers (cells s ! i))" by simp
        from pending_okD(4) [OF p i this] i False show ?thesis
          by (simp add: settle_observers [OF st])
      qed
    qed
    fix ob assume "ob \<in> set (observers (cells s' ! i))"
    then have ob: "ob \<in> set (observers (cells s ! i))" using i by (rule sub [rotated])
    show "i < target ob" "target ob < length (cells s)" "i \<in> set (members i ob)"
      using pending_okD(1-3) [OF p i ob] by simp_all
    fix j ob' assume "j \<in> set [0..<length (cells s)]" "ob' \<in> set (observers (cells s' ! j))"
    then have j: "j < length (cells s)" and ob': "ob' \<in> set (observers (cells s ! j))"
      using sub by simp_all
    show "target ob' = target ob \<longrightarrow> members j ob' = members i ob"
      using pending_okD(5) [OF p i ob j ob'] by simp
  qed
qed

text \<open>
  What one step of a run asks for: the observers that fire resolve deferred values
  created after the placeholder, which no observer that is still pending resolves.
\<close>

lemma settle_new:
  assumes st: "settle d v s = Inr (new, s')" and p: "pending_ok s"
    and t: "t \<in> set (map fst new)"
  shows "d < t" "t < length (cells s)"
    "\<exists>ob \<in> set (observers (cells s ! d)). target ob = t"
    "\<And>i ob. i < length (cells s) \<Longrightarrow> ob \<in> set (observers (cells s' ! i)) \<Longrightarrow> target ob \<noteq> t"
proof -
  from st obtain obs where d: "d < length (cells s)" and c: "cells s ! d = Unresolved obs"
    and new: "new = concat (map (notify s' v) obs)"
    by (rule settleE)
  have vd: "value_of s' d \<noteq> None" by (simp add: settle_value_of [OF st])
  from t new obtain ob tv where ob: "ob \<in> set obs" and tv: "tv \<in> set (notify s' v ob)"
    and tt: "t = fst tv"
    by auto
  from ob c have obd: "ob \<in> set (observers (cells s ! d))" by simp
  have tg: "t = target ob" using notify_target [OF tv] tt by simp
  show "d < t" "t < length (cells s)"
    using pending_okD(1,2) [OF p d obd] tg by simp_all
  show "\<exists>ob \<in> set (observers (cells s ! d)). target ob = t"
    using obd tg by auto
  fix i ob' assume i: "i < length (cells s)" and ob': "ob' \<in> set (observers (cells s' ! i))"
  show "target ob' \<noteq> t"
  proof
    assume e: "target ob' = t"
    from ob' i have id: "i \<noteq> d" and obi: "ob' \<in> set (observers (cells s ! i))"
      by (auto simp: settle_observers [OF st] split: if_splits)
    from e tg have "target ob' = target ob" by simp
    from pending_okD(5) [OF p d obd i obi this] have "members i ob' = members d ob" .
    with pending_okD(3) [OF p i obi] have "i \<in> set (members d ob)" by simp
    with tv vd have "value_of s' i \<noteq> None" by (rule notify_fires)
    with i ob' show False
      by (cases "cells s' ! i") (auto simp: value_of_def settle_length [OF st])
  qed
qed

lemma deliverableI:
  assumes "pending_ok s"
    and "\<And>i ob. i < length (cells s) \<Longrightarrow> ob \<in> set (observers (cells s ! i)) \<Longrightarrow>
           value_of s (target ob) = None \<or> target ob = d"
    and "\<And>t. t \<in> set (map fst wl) \<Longrightarrow> d < t \<and> t < length (cells s) \<and> value_of s t = None"
    and "\<And>t i ob. t \<in> set (map fst wl) \<Longrightarrow> i < length (cells s) \<Longrightarrow>
           ob \<in> set (observers (cells s ! i)) \<Longrightarrow> target ob \<noteq> t"
    and "distinct (map fst wl)"
  shows "deliverable d wl s"
  unfolding deliverable_def
proof (intro conjI)
  show "pending_ok s" by fact
  show "\<forall>i \<in> set [0..<length (cells s)]. \<forall>ob \<in> set (observers (cells s ! i)).
         value_of s (target ob) = None \<or> target ob = d"
    using assms(2) by simp
  show "\<forall>t \<in> set (map fst wl).
         d < t \<and> t < length (cells s) \<and> value_of s t = None \<and>
         (\<forall>i \<in> set [0..<length (cells s)]. \<forall>ob \<in> set (observers (cells s ! i)).
            target ob \<noteq> t)"
  proof (intro ballI conjI)
    fix t assume t: "t \<in> set (map fst wl)"
    from assms(3) [OF t] show "d < t" "t < length (cells s)" "value_of s t = None" by simp_all
    fix i ob assume "i \<in> set [0..<length (cells s)]" "ob \<in> set (observers (cells s ! i))"
    then show "target ob \<noteq> t" using assms(4) [OF t] by simp
  qed
  show "distinct (map fst wl)" by fact
qed

lemma deliverableD:
  assumes "deliverable d wl s"
  shows "pending_ok s"
    and "\<And>i ob. i < length (cells s) \<Longrightarrow> ob \<in> set (observers (cells s ! i)) \<Longrightarrow>
           value_of s (target ob) = None \<or> target ob = d"
    and "\<And>t. t \<in> set (map fst wl) \<Longrightarrow> d < t \<and> t < length (cells s) \<and> value_of s t = None"
    and "\<And>t i ob. t \<in> set (map fst wl) \<Longrightarrow> i < length (cells s) \<Longrightarrow>
           ob \<in> set (observers (cells s ! i)) \<Longrightarrow> target ob \<noteq> t"
    and "distinct (map fst wl)"
proof -
  from assms have 1: "pending_ok s"
    and 2: "\<forall>i \<in> set [0..<length (cells s)]. \<forall>ob \<in> set (observers (cells s ! i)).
         value_of s (target ob) = None \<or> target ob = d"
    and 3: "\<forall>t \<in> set (map fst wl).
         d < t \<and> t < length (cells s) \<and> value_of s t = None \<and>
         (\<forall>i \<in> set [0..<length (cells s)]. \<forall>ob \<in> set (observers (cells s ! i)).
            target ob \<noteq> t)"
    and 4: "distinct (map fst wl)"
    unfolding deliverable_def by blast+
  show "pending_ok s" by (rule 1)
  show "distinct (map fst wl)" by (rule 4)
  show "value_of s (target ob) = None \<or> target ob = d"
    if "i < length (cells s)" "ob \<in> set (observers (cells s ! i))" for i ob
  proof -
    from that(1) have "i \<in> set [0..<length (cells s)]" by simp
    with 2 that(2) show ?thesis by blast
  qed
  show "d < t \<and> t < length (cells s) \<and> value_of s t = None" if "t \<in> set (map fst wl)" for t
    using 3 that by blast
  show "target ob \<noteq> t"
    if "t \<in> set (map fst wl)" "i < length (cells s)" "ob \<in> set (observers (cells s ! i))"
    for t i ob
  proof -
    from that(2) have "i \<in> set [0..<length (cells s)]" by simp
    with 3 that(1,3) show ?thesis by blast
  qed
qed

lemma settle_unresolved:
  assumes "d < length (cells s)" "value_of s d = None"
  shows "\<exists>new s'. settle d v s = Inr (new, s')"
proof -
  from assms obtain obs where "cells s ! d = Unresolved obs"
    by (cases "cells s ! d") (auto simp: value_of_def)
  with assms(1) show ?thesis by (simp add: settle_def Let_def)
qed

lemma settle_new_distinct:
  assumes st: "settle d v s = Inr (new, s')" and p: "pending_ok s"
  shows "distinct (map fst new)"
proof -
  from st obtain obs where d: "d < length (cells s)" and c: "cells s ! d = Unresolved obs"
    and new: "new = concat (map (notify s' v) obs)"
    by (rule settleE)
  from p d have "distinct (map target (observers (cells s ! d)))"
    unfolding pending_ok_def by simp
  with c have "distinct (map target obs)" by simp
  then show ?thesis unfolding new by (rule notify_all_distinct)
qed

lemma settle_observers_sub:
  assumes "settle d v s = Inr (new, s')" "i < length (cells s)"
    "ob \<in> set (observers (cells s' ! i))"
  shows "ob \<in> set (observers (cells s ! i))"
  using assms(3) by (simp add: settle_observers [OF assms(1,2)] split: if_splits)

lemma deliverable_step:
  assumes dv: "deliverable d0 ((t, v) # wl) s"
  shows "\<exists>new s'. settle t v s = Inr (new, s') \<and> deliverable d0 (new @ wl) s'"
proof -
  note p = deliverableD(1) [OF dv] and q1 = deliverableD(2) [OF dv]
    and q2 = deliverableD(3) [OF dv] and q4 = deliverableD(4) [OF dv]
    and q3 = deliverableD(5) [OF dv]
  from q2 [of t] have t: "d0 < t" "t < length (cells s)" "value_of s t = None" by simp_all
  from settle_unresolved [OF t(2,3)] obtain new s' where st: "settle t v s = Inr (new, s')"
    by blast
  have len: "length (cells s') = length (cells s)" using st by (rule settle_length)
  have val: "\<And>x. value_of s' x = (if x = t then Some v else value_of s x)"
    by (rule settle_value_of [OF st])
  have "deliverable d0 (new @ wl) s'"
  proof (rule deliverableI)
    show "pending_ok s'" using st p by (rule settle_pending_ok)
  next
    fix i ob assume "i < length (cells s')" "ob \<in> set (observers (cells s' ! i))"
    then have i: "i < length (cells s)" and ob: "ob \<in> set (observers (cells s ! i))"
      using settle_observers_sub [OF st] len by simp_all
    from q4 [of t i ob] i ob have "target ob \<noteq> t" by simp
    with q1 [OF i ob] show "value_of s' (target ob) = None \<or> target ob = d0"
      by (simp add: val)
  next
    fix u assume u: "u \<in> set (map fst (new @ wl))"
    show "d0 < u \<and> u < length (cells s') \<and> value_of s' u = None"
    proof (cases "u \<in> set (map fst new)")
      case True
      note n = settle_new [OF st p True]
      from n(3) obtain ob where ob: "ob \<in> set (observers (cells s ! t))" and tg: "target ob = u"
        by auto
      from n(1) t(1) have "u \<noteq> d0" by simp
      with q1 [OF t(2) ob] tg have "value_of s u = None" by simp
      with n(1) have "value_of s' u = None" by (simp add: val)
      with n(1,2) t(1) len show ?thesis by simp
    next
      case False
      with u have w: "u \<in> set (map fst wl)" by auto
      with q3 have "u \<noteq> t" by auto
      with q2 [of u] w len show ?thesis by (simp add: val)
    qed
  next
    fix u i ob assume u: "u \<in> set (map fst (new @ wl))" and i': "i < length (cells s')"
      and ob': "ob \<in> set (observers (cells s' ! i))"
    from i' len have i: "i < length (cells s)" by simp
    show "target ob \<noteq> u"
    proof (cases "u \<in> set (map fst new)")
      case True
      from settle_new(4) [OF st p True i ob'] show ?thesis .
    next
      case False
      with u have w: "u \<in> set (map fst wl)" by auto
      from settle_observers_sub [OF st i ob'] q4 [of u i ob] w i show ?thesis by simp
    qed
  next
    have dn: "distinct (map fst new)" using st p by (rule settle_new_distinct)
    have "set (map fst new) \<inter> set (map fst wl) = {}"
    proof (rule ccontr)
      assume "set (map fst new) \<inter> set (map fst wl) \<noteq> {}"
      then obtain u where un: "u \<in> set (map fst new)" and uw: "u \<in> set (map fst wl)"
        by blast
      from settle_new(3) [OF st p un] obtain ob
        where "ob \<in> set (observers (cells s ! t))" "target ob = u" by auto
      with q4 [of u t ob] uw t(2) show False by simp
    qed
    with dn q3 show "distinct (map fst (new @ wl))" by simp
  qed
  with st show ?thesis by blast
qed

lemma deliverable_deliver:
  assumes "deliverable d0 wl s"
  shows "\<exists>s'. deliver wl s = Inr s'"
  using assms
proof (induction wl s rule: deliver.induct)
  case (1 s)
  then show ?case by simp
next
  case (2 d v wl s)
  from deliverable_step [OF "2.prems"] obtain new s1
    where st: "settle d v s = Inr (new, s1)" and dv: "deliverable d0 (new @ wl) s1"
    by blast
  from "2.IH" [OF st refl dv] obtain s' where "deliver (new @ wl) s1 = Inr s'" by blast
  with st show ?case by simp
qed

lemma well_formed_resolve:
  assumes wf: "well_formed s" and d: "d < length (cells s)" and u: "value_of s d = None"
  shows "\<exists>s'. resolve d v s = Inr s'"
proof -
  from wf have p: "pending_ok s"
    and q0: "\<forall>i \<in> set [0..<length (cells s)]. \<forall>ob \<in> set (observers (cells s ! i)).
         value_of s (target ob) = None"
    unfolding well_formed_def by blast+
  have q: "value_of s (target ob) = None"
    if "i < length (cells s)" "ob \<in> set (observers (cells s ! i))" for i ob
  proof -
    from that(1) have "i \<in> set [0..<length (cells s)]" by simp
    with q0 that(2) show ?thesis by blast
  qed
  from settle_unresolved [OF d u] obtain new s' where st: "settle d v s = Inr (new, s')"
    by blast
  have len: "length (cells s') = length (cells s)" using st by (rule settle_length)
  have val: "\<And>x. value_of s' x = (if x = d then Some v else value_of s x)"
    by (rule settle_value_of [OF st])
  have "deliverable d new s'"
  proof (rule deliverableI)
    show "pending_ok s'" using st p by (rule settle_pending_ok)
  next
    fix i ob assume "i < length (cells s')" "ob \<in> set (observers (cells s' ! i))"
    then have "i < length (cells s)" "ob \<in> set (observers (cells s ! i))"
      using settle_observers_sub [OF st] len by simp_all
    from q [OF this] show "value_of s' (target ob) = None \<or> target ob = d"
      by (simp add: val)
  next
    fix t assume t: "t \<in> set (map fst new)"
    note n = settle_new [OF st p t]
    from n(3) obtain ob where "ob \<in> set (observers (cells s ! d))" "target ob = t" by auto
    with q [OF d] have "value_of s t = None" by auto
    with n(1) have "value_of s' t = None" by (simp add: val)
    with n(1,2) len show "d < t \<and> t < length (cells s') \<and> value_of s' t = None" by simp
  next
    fix t i ob assume "t \<in> set (map fst new)" "i < length (cells s')"
      "ob \<in> set (observers (cells s' ! i))"
    then show "target ob \<noteq> t" using settle_new(4) [OF st p] len by simp
  next
    show "distinct (map fst new)" using st p by (rule settle_new_distinct)
  qed
  then obtain s'' where "deliver new s' = Inr s''"
    using deliverable_deliver by blast
  with st show ?thesis by (simp add: resolve_def)
qed

text \<open>
  Claim C6. A successful \<open>resolve\<close> finds the deferred value unresolved and leaves it
  holding the given value; on an unresolved value of a well-formed store, whatever
  observers are pending on it, \<open>resolve\<close> succeeds; on an unresolved value without
  observers it changes nothing else; on a resolved value it fails with
  \<open>AlreadyResolved\<close> and yields no store; and a value once held is still held after any
  run of operations.
\<close>

theorem deferred_single_assignment:
  "(resolve d v s = Inr s' \<longrightarrow> value_of s d = None \<and> value_of s' d = Some v) \<and>
   (well_formed s \<and> d < length (cells s) \<and> value_of s d = None \<longrightarrow>
      (\<exists>s1. resolve d v s = Inr s1 \<and> value_of s1 d = Some v)) \<and>
   (d < length (cells s) \<and> cells s ! d = Unresolved [] \<longrightarrow>
      resolve d v s = Inr (s\<lparr>cells := (cells s)[d := Resolved v], fired := fired s @ [d]\<rparr>)) \<and>
   (value_of s d = Some a \<longrightarrow> resolve d v s = Inl (AlreadyResolved d)) \<and>
   (value_of s d = Some a \<and> run_ops xs s = Inr s'' \<longrightarrow> value_of s'' d = Some a)"
proof (intro conjI impI)
  assume r: "resolve d v s = Inr s'"
  show "value_of s d = None"
  proof (cases "value_of s d")
    case None
    then show ?thesis .
  next
    case (Some b)
    then have "resolve d v s = Inl (AlreadyResolved d)" by (rule resolve_resolved)
    with r show ?thesis by simp
  qed
  from r show "value_of s' d = Some v" by (rule resolve_sets_value)
next
  assume "well_formed s \<and> d < length (cells s) \<and> value_of s d = None"
  then have "well_formed s" "d < length (cells s)" "value_of s d = None" by simp_all
  then obtain s1 where r: "resolve d v s = Inr s1"
    using well_formed_resolve by blast
  then have "value_of s1 d = Some v" by (rule resolve_sets_value)
  with r show "\<exists>s1. resolve d v s = Inr s1 \<and> value_of s1 d = Some v" by blast
next
  assume "d < length (cells s) \<and> cells s ! d = Unresolved []"
  then show "resolve d v s =
      Inr (s\<lparr>cells := (cells s)[d := Resolved v], fired := fired s @ [d]\<rparr>)"
    by (simp add: resolve_no_observers)
next
  assume "value_of s d = Some a"
  then show "resolve d v s = Inl (AlreadyResolved d)" by (rule resolve_resolved)
next
  assume "value_of s d = Some a \<and> run_ops xs s = Inr s''"
  then show "value_of s'' d = Some a" by (auto intro: run_ops_keeps_value)
qed

theorem deferred_single_assignment_witness:
  "run_ops [New, TransformOp (\<lambda>v. Collection [v]) 0, New, FanIn [0, 2]] empty_store
     = Inr \<lparr>cells = [Unresolved [Transform (\<lambda>v. Collection [v]) 1, Gather 3 [0, 2]],
                     Unresolved [], Unresolved [Gather 3 [0, 2]], Unresolved []],
             fired = []\<rparr> \<and>
   well_formed \<lparr>cells = [Unresolved [Transform (\<lambda>v. Collection [v]) 1, Gather 3 [0, 2]],
                     Unresolved [], Unresolved [Gather 3 [0, 2]], Unresolved []],
             fired = []\<rparr> \<and>
   (\<exists>s1. resolve 0 (Text ''10.0.1.5'')
           \<lparr>cells = [Unresolved [Transform (\<lambda>v. Collection [v]) 1, Gather 3 [0, 2]],
                     Unresolved [], Unresolved [Gather 3 [0, 2]], Unresolved []],
             fired = []\<rparr> = Inr s1 \<and>
         value_of s1 0 = Some (Text ''10.0.1.5'')) \<and>
   resolve 0 (Text ''10.0.1.5'')
       \<lparr>cells = [Unresolved [Transform (\<lambda>v. Collection [v]) 1, Gather 3 [0, 2]],
                 Unresolved [], Unresolved [Gather 3 [0, 2]], Unresolved []],
         fired = []\<rparr>
     = Inr \<lparr>cells = [Resolved (Text ''10.0.1.5''), Resolved (Collection [Text ''10.0.1.5'']),
                     Unresolved [Gather 3 [0, 2]], Unresolved []],
             fired = [0, 1]\<rparr> \<and>
   resolve 0 (Text ''10.0.1.6'')
       \<lparr>cells = [Resolved (Text ''10.0.1.5''), Resolved (Collection [Text ''10.0.1.5'']),
                 Unresolved [Gather 3 [0, 2]], Unresolved []],
         fired = [0, 1]\<rparr>
     = Inl (AlreadyResolved 0) \<and>
   run_ops [Resolve 2 (Text ''10.0.1.7'')]
       \<lparr>cells = [Resolved (Text ''10.0.1.5''), Resolved (Collection [Text ''10.0.1.5'']),
                 Unresolved [Gather 3 [0, 2]], Unresolved []],
         fired = [0, 1]\<rparr>
     = Inr \<lparr>cells = [Resolved (Text ''10.0.1.5''), Resolved (Collection [Text ''10.0.1.5'']),
                     Resolved (Text ''10.0.1.7''),
                     Resolved (Collection [Text ''10.0.1.5'', Text ''10.0.1.7''])],
             fired = [0, 1, 2, 3]\<rparr> \<and>
   value_of \<lparr>cells = [Resolved (Text ''10.0.1.5''), Resolved (Collection [Text ''10.0.1.5'']),
                     Resolved (Text ''10.0.1.7''),
                     Resolved (Collection [Text ''10.0.1.5'', Text ''10.0.1.7''])],
             fired = [0, 1, 2, 3]\<rparr> 0 = Some (Text ''10.0.1.5'')"
proof -
  let ?f = "\<lambda>v. Collection [v]"
  let ?a = "Text ''10.0.1.5''"
  let ?s0 = "\<lparr>cells = [Unresolved [Transform ?f 1, Gather 3 [0, 2]],
                     Unresolved [], Unresolved [Gather 3 [0, 2]], Unresolved []],
             fired = []\<rparr>"
  let ?s1 = "\<lparr>cells = [Resolved ?a, Resolved (Collection [?a]),
                     Unresolved [Gather 3 [0, 2]], Unresolved []],
             fired = [0, 1]\<rparr>"
  let ?xs = "[Resolve 2 (Text ''10.0.1.7'')]"
  let ?s2 = "\<lparr>cells = [Resolved ?a, Resolved (Collection [?a]),
                     Resolved (Text ''10.0.1.7''),
                     Resolved (Collection [?a, Text ''10.0.1.7''])],
             fired = [0, 1, 2, 3]\<rparr>"
  have b: "run_ops [New, TransformOp ?f 0, New, FanIn [0, 2]] empty_store = Inr ?s0"
    by (simp add: empty_store_def new_deferred_def transform_def fan_in_def value_of_def
        subscribe_def Let_def)
  have w: "well_formed ?s0"
    by (simp add: well_formed_def pending_ok_def value_of_def)
  have u: "value_of ?s0 0 = None"
    by (simp add: value_of_def)
  have x: "\<exists>s1. resolve 0 ?a ?s0 = Inr s1 \<and> value_of s1 0 = Some ?a"
    by (rule deferred_single_assignment [of 0 ?a ?s0, THEN conjunct2, THEN conjunct1, THEN mp])
      (intro conjI, rule w, simp, rule u)
  have r: "resolve 0 ?a ?s0 = Inr ?s1"
    by (simp add: resolve_def settle_def value_of_def Let_def)
  have v: "value_of ?s1 0 = Some ?a"
    by (rule deferred_single_assignment [of 0 ?a ?s0 ?s1, THEN conjunct1, THEN mp, OF r,
          THEN conjunct2])
  have e: "resolve 0 (Text ''10.0.1.6'') ?s1 = Inl (AlreadyResolved 0)"
    by (rule deferred_single_assignment [of 0 "Text ''10.0.1.6''" ?s1 _ ?a,
          THEN conjunct2, THEN conjunct2, THEN conjunct2, THEN conjunct1, THEN mp, OF v])
  have y: "run_ops ?xs ?s1 = Inr ?s2"
    by (simp add: resolve_def settle_def value_of_def Let_def)
  have k: "value_of ?s2 0 = Some ?a"
    by (rule deferred_single_assignment [of 0 _ ?s1 _ ?a ?xs ?s2,
          THEN conjunct2, THEN conjunct2, THEN conjunct2, THEN conjunct2, THEN mp,
          OF conjI [OF v y]])
  from b w x r e y k show ?thesis by (intro conjI)
qed

section \<open>Deferred values: transformations\<close>

lemma transform_unresolved:
  assumes "d < length (cells s)" "cells s ! d = Unresolved obs"
  shows "transform f d s =
     Inr (length (cells s),
          s\<lparr>cells := (cells s)[d := Unresolved (obs @ [Transform f (length (cells s))])]
                        @ [Unresolved []]\<rparr>)"
  using assms by (simp add: transform_def Let_def)

lemma transform_resolved:
  assumes "value_of s d = Some v"
  shows "transform f d s =
     Inr (length (cells s),
          s\<lparr>cells := cells s @ [Resolved (f v)], fired := fired s @ [length (cells s)]\<rparr>)"
  using assms
  by (auto simp: transform_def Let_def value_of_def cell_value_def split: if_splits cell.splits)

text \<open>A run does not depend on a placeholder that is added behind it.\<close>

lemma notify_cong:
  assumes "value_of s1 = value_of s2"
  shows "notify s1 v ob = notify s2 v ob"
  using assms by (cases ob) simp_all

lemma settle_new_deferred:
  assumes "settle d v s = Inr (new, s')"
  shows "settle d v (snd (new_deferred s)) = Inr (new, snd (new_deferred s'))"
proof -
  let ?n = "snd (new_deferred s)"
  from assms obtain obs where d: "d < length (cells s)" and c: "cells s ! d = Unresolved obs"
    and s': "s' = s\<lparr>cells := (cells s)[d := Resolved v], fired := fired s @ [d]\<rparr>"
    and new: "new = concat (map (notify s' v) obs)"
    by (rule settleE)
  define s1 where "s1 = ?n\<lparr>cells := (cells ?n)[d := Resolved v], fired := fired ?n @ [d]\<rparr>"
  have e: "s1 = snd (new_deferred s')"
    using d by (simp add: s1_def new_deferred_def s' list_update_append1)
  from d c have dn: "d < length (cells ?n)" "cells ?n ! d = Unresolved obs"
    by (simp_all add: new_deferred_def nth_append)
  then have 1: "settle d v ?n = Inr (concat (map (notify s1 v) obs), s1)"
    by (simp add: settle_def Let_def s1_def)
  have "value_of s1 = value_of s'"
    unfolding e by (rule ext) (rule new_deferred_value_of)
  then have "notify s1 v = notify s' v"
    by (rule ext [OF notify_cong])
  with 1 show ?thesis by (simp add: new e)
qed

lemma deliver_new_deferred:
  assumes "deliver wl s = Inr s'"
  shows "deliver wl (snd (new_deferred s)) = Inr (snd (new_deferred s'))"
  using assms
proof (induction wl s rule: deliver.induct)
  case (1 s)
  then show ?case by simp
next
  case (2 d v wl s)
  from "2.prems"(1) obtain new s1 where st: "settle d v s = Inr (new, s1)"
    and dl: "deliver (new @ wl) s1 = Inr s'"
    by (auto split: sum.splits)
  from "2.IH" [OF st refl dl] settle_new_deferred [OF st] show ?case by simp
qed

lemma deliver_fresh:
  "deliver [(length (cells s), x)] (snd (new_deferred s))
     = Inr (s\<lparr>cells := cells s @ [Resolved x], fired := fired s @ [length (cells s)]\<rparr>)"
  by (simp add: settle_def new_deferred_def Let_def)

text \<open>
  A transformation registered on an unresolved placeholder is carried out last when the
  placeholder resolves, after the observers that were registered before it.
\<close>

lemma resolve_after_transform:
  assumes d: "d < length (cells s)" and c: "cells s ! d = Unresolved obs"
    and r: "resolve d v s = Inr sr"
  shows "resolve d v
           (s\<lparr>cells := (cells s)[d := Unresolved (obs @ [Transform f (length (cells s))])]
                         @ [Unresolved []]\<rparr>)
         = Inr (sr\<lparr>cells := cells sr @ [Resolved (f v)],
                    fired := fired sr @ [length (cells s)]\<rparr>)"
proof -
  let ?t = "length (cells s)"
  let ?s1 = "s\<lparr>cells := (cells s)[d := Unresolved (obs @ [Transform f ?t])] @ [Unresolved []]\<rparr>"
  from r obtain w s' where st: "settle d v s = Inr (w, s')" and dl: "deliver w s' = Inr sr"
    unfolding resolve_def by (auto split: sum.splits)
  from st d c have s': "s' = s\<lparr>cells := (cells s)[d := Resolved v], fired := fired s @ [d]\<rparr>"
    and w: "w = concat (map (notify s' v) obs)"
    by (auto elim!: settleE)
  let ?n = "snd (new_deferred s')"
  have n: "?n = ?s1\<lparr>cells := (cells ?s1)[d := Resolved v], fired := fired ?s1 @ [d]\<rparr>"
    using d by (simp add: new_deferred_def s' list_update_append1)
  have "value_of ?n = value_of s'"
    by (rule ext) (rule new_deferred_value_of)
  then have nt: "notify ?n v = notify s' v"
    by (rule ext [OF notify_cong])
  from d have "d < length (cells ?s1)" "cells ?s1 ! d = Unresolved (obs @ [Transform f ?t])"
    by (simp_all add: nth_append)
  then have "settle d v ?s1 = Inr (concat (map (notify ?n v) (obs @ [Transform f ?t])), ?n)"
    unfolding n by (simp add: settle_def Let_def)
  then have st1: "settle d v ?s1 = Inr (w @ [(?t, f v)], ?n)"
    by (simp add: nt w)
  from dl have dn: "deliver w ?n = Inr (snd (new_deferred sr))"
    by (rule deliver_new_deferred)
  have len: "length (cells sr) = ?t"
    using deliver_length [OF dl] settle_length [OF st] by simp
  have last: "deliver [(?t, f v)] (snd (new_deferred sr))
      = Inr (sr\<lparr>cells := cells sr @ [Resolved (f v)], fired := fired sr @ [?t]\<rparr>)"
    using deliver_fresh [of sr "f v"] unfolding len .
  have "resolve d v ?s1 = deliver (w @ [(?t, f v)]) ?n"
    using st1 by (simp add: resolve_def)
  also have "\<dots> = deliver [(?t, f v)] (snd (new_deferred sr))"
    by (simp add: deliver_append dn del: deliver.simps)
  finally show ?thesis using last by simp
qed

text \<open>The log names placeholders of the store.\<close>

lemma deliver_fired_range:
  assumes "deliver wl s = Inr s'" "\<forall>x \<in> set (fired s). x < length (cells s)"
  shows "\<forall>x \<in> set (fired s'). x < length (cells s)"
  using assms
proof (induction wl s rule: deliver.induct)
  case (1 s)
  then show ?case by simp
next
  case (2 d v wl s)
  from "2.prems"(1) obtain new s1 where st: "settle d v s = Inr (new, s1)"
    and dl: "deliver (new @ wl) s1 = Inr s'"
    by (auto split: sum.splits)
  from st have d: "d < length (cells s)" by (rule settleE)
  have len: "length (cells s1) = length (cells s)" using st by (rule settle_length)
  from "2.prems"(2) d have "\<forall>x \<in> set (fired s1). x < length (cells s1)"
    by (simp add: settle_fired [OF st] len)
  from "2.IH" [OF st refl dl this] show ?case by (simp add: len)
qed

text \<open>
  Claim C5. On a placeholder that holds a value, \<open>transform\<close> returns a deferred value that
  already holds the image and leaves nothing pending. On an unresolved placeholder of a
  well-formed store, registering the transformation and then resolving the placeholder
  ends in the same store as resolving it and then registering the transformation: the
  new deferred value holds the image of the resolved value and was fired once.
\<close>

theorem transform_before_or_after:
  "(value_of s d = Some a \<longrightarrow>
      transform f d s =
        Inr (length (cells s),
             s\<lparr>cells := cells s @ [Resolved (f a)], fired := fired s @ [length (cells s)]\<rparr>)) \<and>
   (well_formed s \<and> d < length (cells s) \<and> value_of s d = None \<and>
    (\<forall>x \<in> set (fired s). x < length (cells s)) \<longrightarrow>
      (\<exists>t s1 sr s2.
          transform f d s = Inr (t, s1) \<and> value_of s1 t = None \<and> resolve d v s1 = Inr s2 \<and>
          resolve d v s = Inr sr \<and> transform f d sr = Inr (t, s2) \<and>
          value_of s2 t = Some (f v) \<and> count_list (fired s2) t = 1))"
proof (intro conjI impI)
  assume "value_of s d = Some a"
  then show "transform f d s =
        Inr (length (cells s),
             s\<lparr>cells := cells s @ [Resolved (f a)], fired := fired s @ [length (cells s)]\<rparr>)"
    by (rule transform_resolved)
next
  assume h: "well_formed s \<and> d < length (cells s) \<and> value_of s d = None \<and>
    (\<forall>x \<in> set (fired s). x < length (cells s))"
  then have wf: "well_formed s" and d: "d < length (cells s)" and u: "value_of s d = None"
    and fr: "\<forall>x \<in> set (fired s). x < length (cells s)"
    by simp_all
  let ?t = "length (cells s)"
  from d u obtain obs where c: "cells s ! d = Unresolved obs"
    by (cases "cells s ! d") (auto simp: value_of_def)
  define s1 where
    "s1 = s\<lparr>cells := (cells s)[d := Unresolved (obs @ [Transform f ?t])] @ [Unresolved []]\<rparr>"
  from well_formed_resolve [OF wf d u] obtain sr where r: "resolve d v s = Inr sr" by blast
  define s2 where "s2 = sr\<lparr>cells := cells sr @ [Resolved (f v)], fired := fired sr @ [?t]\<rparr>"
  have len: "length (cells sr) = ?t"
    using r deliver_length [of "[(d, v)]" s sr] by (simp add: resolve_def del: deliver.simps)
  have t1: "transform f d s = Inr (?t, s1)"
    unfolding s1_def using d c by (rule transform_unresolved)
  have v1: "value_of s1 ?t = None"
    by (simp add: s1_def value_of_def nth_append)
  have r1: "resolve d v s1 = Inr s2"
    unfolding s1_def s2_def using d c r by (rule resolve_after_transform)
  have "value_of sr d = Some v" using r by (rule resolve_sets_value)
  then have t2: "transform f d sr = Inr (?t, s2)"
    unfolding s2_def len [symmetric] by (rule transform_resolved)
  have v2: "value_of s2 ?t = Some (f v)"
    by (simp add: s2_def value_of_def len nth_append)
  from r have "deliver [(d, v)] s = Inr sr" by (simp add: resolve_def del: deliver.simps)
  from deliver_fired_range [OF this fr] have "?t \<notin> set (fired sr)" by auto
  then have "count_list (fired sr) ?t = 0" by (simp add: count_list_0_iff)
  then have c2: "count_list (fired s2) ?t = 1" by (simp add: s2_def)
  from t1 v1 r1 r t2 v2 c2
  show "\<exists>t s1 sr s2.
          transform f d s = Inr (t, s1) \<and> value_of s1 t = None \<and> resolve d v s1 = Inr s2 \<and>
          resolve d v s = Inr sr \<and> transform f d sr = Inr (t, s2) \<and>
          value_of s2 t = Some (f v) \<and> count_list (fired s2) t = 1"
    by (intro exI conjI)
qed

theorem transform_before_or_after_witness:
  "run_ops [New, New, FanIn [0, 1]] empty_store
     = Inr \<lparr>cells = [Unresolved [Gather 2 [0, 1]], Unresolved [Gather 2 [0, 1]], Unresolved []],
            fired = []\<rparr> \<and>
   (\<exists>t s1 sr s2.
       transform (\<lambda>v. Collection [v, v]) 0
         \<lparr>cells = [Unresolved [Gather 2 [0, 1]], Unresolved [Gather 2 [0, 1]], Unresolved []],
           fired = []\<rparr> = Inr (t, s1) \<and>
       value_of s1 t = None \<and>
       resolve 0 (Text ''10.0.1.5'') s1 = Inr s2 \<and>
       resolve 0 (Text ''10.0.1.5'')
         \<lparr>cells = [Unresolved [Gather 2 [0, 1]], Unresolved [Gather 2 [0, 1]], Unresolved []],
           fired = []\<rparr> = Inr sr \<and>
       transform (\<lambda>v. Collection [v, v]) 0 sr = Inr (t, s2) \<and>
       value_of s2 t = Some (Collection [Text ''10.0.1.5'', Text ''10.0.1.5'']) \<and>
       count_list (fired s2) t = 1) \<and>
   resolve 0 (Text ''10.0.1.5'')
     \<lparr>cells = [Unresolved [Gather 2 [0, 1], Transform (\<lambda>v. Collection [v, v]) 3],
               Unresolved [Gather 2 [0, 1]], Unresolved [], Unresolved []],
       fired = []\<rparr>
     = Inr \<lparr>cells = [Resolved (Text ''10.0.1.5''), Unresolved [Gather 2 [0, 1]], Unresolved [],
                    Resolved (Collection [Text ''10.0.1.5'', Text ''10.0.1.5''])],
            fired = [0, 3]\<rparr> \<and>
   transform (\<lambda>v. Collection [v, v]) 0
     \<lparr>cells = [Resolved (Text ''10.0.1.5''), Unresolved [Gather 2 [0, 1]], Unresolved []],
       fired = [0]\<rparr>
     = Inr (3, \<lparr>cells = [Resolved (Text ''10.0.1.5''), Unresolved [Gather 2 [0, 1]], Unresolved [],
                        Resolved (Collection [Text ''10.0.1.5'', Text ''10.0.1.5''])],
                fired = [0, 3]\<rparr>)"
proof -
  let ?f = "\<lambda>v. Collection [v, v]"
  let ?a = "Text ''10.0.1.5''"
  let ?s = "\<lparr>cells = [Unresolved [Gather 2 [0, 1]], Unresolved [Gather 2 [0, 1]], Unresolved []],
            fired = []\<rparr>"
  let ?sr = "\<lparr>cells = [Resolved ?a, Unresolved [Gather 2 [0, 1]], Unresolved []],
       fired = [0]\<rparr>"
  have b: "run_ops [New, New, FanIn [0, 1]] empty_store = Inr ?s"
    by (simp add: empty_store_def new_deferred_def fan_in_def value_of_def subscribe_def Let_def)
  have w: "well_formed ?s"
    by (simp add: well_formed_def pending_ok_def value_of_def)
  have u: "value_of ?s 0 = None"
    by (simp add: value_of_def)
  have x: "\<exists>t s1 sr s2.
       transform ?f 0 ?s = Inr (t, s1) \<and> value_of s1 t = None \<and>
       resolve 0 ?a s1 = Inr s2 \<and> resolve 0 ?a ?s = Inr sr \<and>
       transform ?f 0 sr = Inr (t, s2) \<and>
       value_of s2 t = Some (Collection [?a, ?a]) \<and> count_list (fired s2) t = 1"
    by (rule transform_before_or_after [of ?s 0 _ ?f ?a, THEN conjunct2, THEN mp])
      (intro conjI, rule w, simp, rule u, simp)
  have v: "value_of ?sr 0 = Some ?a"
    by (simp add: value_of_def)
  have r: "resolve 0 ?a
     \<lparr>cells = [Unresolved [Gather 2 [0, 1], Transform ?f 3],
               Unresolved [Gather 2 [0, 1]], Unresolved [], Unresolved []],
       fired = []\<rparr>
     = Inr \<lparr>cells = [Resolved ?a, Unresolved [Gather 2 [0, 1]], Unresolved [],
                    Resolved (Collection [?a, ?a])],
            fired = [0, 3]\<rparr>"
    by (simp add: resolve_def settle_def value_of_def Let_def)
  have t: "transform ?f 0 ?sr
     = Inr (3, \<lparr>cells = [Resolved ?a, Unresolved [Gather 2 [0, 1]], Unresolved [],
                        Resolved (Collection [?a, ?a])],
                fired = [0, 3]\<rparr>)"
    using transform_before_or_after [of ?sr 0 ?a ?f, THEN conjunct1, THEN mp, OF v] by simp
  from b x r t show ?thesis by (intro conjI)
qed

end
